theory Spec2Isabelle
  imports Main "HOL-Library.Sublist"
begin

section \<open>Text: characters, stripping, splitting\<close>

text \<open>
  The extractor of \<^verbatim>\<open>backend/pdf_extractor.py\<close> works on Python \<^verbatim>\<open>str\<close> values. A text is
  modelled as a \<^typ>\<open>string\<close> whose characters are read as code points below 256. On that
  range the character classes below are the ones of Python's Unicode-aware \<^verbatim>\<open>re\<close> module
  and of \<^verbatim>\<open>str.strip\<close>: \<^verbatim>\<open>\s\<close> and \<^verbatim>\<open>strip()\<close> use \<^verbatim>\<open>str.isspace\<close>, \<^verbatim>\<open>\d\<close> the decimal
  digits, \<^verbatim>\<open>\w\<close> the alphanumeric characters and the underscore.
\<close>

definition code :: "char \<Rightarrow> nat" where
  "code c = of_char c"

definition is_space :: "char \<Rightarrow> bool" where
  "is_space c = ((9 \<le> code c \<and> code c \<le> 13) \<or> (28 \<le> code c \<and> code c \<le> 32)
                 \<or> code c = 133 \<or> code c = 160)"

definition is_digit :: "char \<Rightarrow> bool" where
  "is_digit c = (48 \<le> code c \<and> code c \<le> 57)"

definition is_upper :: "char \<Rightarrow> bool" where
  "is_upper c = (65 \<le> code c \<and> code c \<le> 90)"

definition is_lower :: "char \<Rightarrow> bool" where
  "is_lower c = (97 \<le> code c \<and> code c \<le> 122)"

definition is_word :: "char \<Rightarrow> bool" where
  "is_word c = (is_digit c \<or> is_upper c \<or> is_lower c \<or> code c = 95
                \<or> code c = 170 \<or> code c = 178 \<or> code c = 179 \<or> code c = 181
                \<or> code c = 185 \<or> code c = 186 \<or> (188 \<le> code c \<and> code c \<le> 190)
                \<or> (192 \<le> code c \<and> code c \<le> 214) \<or> (216 \<le> code c \<and> code c \<le> 246)
                \<or> 248 \<le> code c)"

definition newline :: char where
  "newline = CHR 0x0A"

text \<open>Case folding as \<^verbatim>\<open>re.IGNORECASE\<close> applies it to a pattern letter of the ASCII range:
  a text character below 256 matches it exactly when it is the same ASCII letter in either
  case.\<close>

definition to_lower :: "char \<Rightarrow> char" where
  "to_lower c = (if is_upper c then char_of (code c + 32) else c)"

text \<open>\<^verbatim>\<open>str.strip()\<close>: whitespace removed at both ends.\<close>

definition strip :: "string \<Rightarrow> string" where
  "strip s = rev (dropWhile is_space (rev (dropWhile is_space s)))"

text \<open>\<^verbatim>\<open>str.split(sep)\<close> for a one-character separator: always at least one piece.\<close>

fun split :: "char \<Rightarrow> string \<Rightarrow> string list" where
  "split sep [] = [[]]"
| "split sep (c # cs) =
     (if c = sep then [] # split sep cs
      else (case split sep cs of [] \<Rightarrow> [[c]] | w # ws \<Rightarrow> (c # w) # ws))"

section \<open>Regular expressions with Python's backtracking order\<close>

text \<open>
  The four patterns of the extractor are written in a small regular-expression syntax. The
  matcher returns every way to match, in the order in which a backtracking matcher tries
  them (greedy repetitions longest first, lazy ones shortest first, the left alternative
  first), so that the head of the list is the match Python reports, with its groups.
  Repetition is over a single character class, which is all the patterns use.
\<close>

datatype cclass =
    Lit char
  | Dot
  | Digit
  | Word
  | Space
  | Range char char
  | Union cclass cclass

fun cc_match :: "bool \<Rightarrow> cclass \<Rightarrow> char \<Rightarrow> bool" where
  "cc_match ic (Lit a) c = (if ic then to_lower c = to_lower a else c = a)"
| "cc_match ic Dot c = (c \<noteq> newline)"
| "cc_match ic Digit c = is_digit c"
| "cc_match ic Word c = is_word c"
| "cc_match ic Space c = is_space c"
| "cc_match ic (Range lo hi) c = (code lo \<le> code c \<and> code c \<le> code hi)"
| "cc_match ic (Union k1 k2) c = (cc_match ic k1 c \<or> cc_match ic k2 c)"

datatype regex =
    Eps
  | Atom cclass
  | Bol
  | Eol
  | WordB
  | Seq regex regex
  | Alt regex regex
  | Rep bool nat "nat option" cclass
  | Opt regex
  | Group nat regex

text \<open>A matcher state: the text already consumed (reversed), the text still to read, and
  the groups recorded so far.\<close>

type_synonym mstate = "string \<times> string \<times> (nat \<times> string) list"

definition at_word_boundary :: "string \<Rightarrow> string \<Rightarrow> bool" where
  "at_word_boundary b r =
     ((case b of [] \<Rightarrow> False | c # _ \<Rightarrow> is_word c) \<noteq> (case r of [] \<Rightarrow> False | c # _ \<Rightarrow> is_word c))"

definition rep_counts :: "bool \<Rightarrow> nat \<Rightarrow> nat option \<Rightarrow> nat \<Rightarrow> nat list" where
  "rep_counts greedy lo hi avail =
     (let top = (case hi of None \<Rightarrow> avail | Some h \<Rightarrow> min h avail);
          counts = [lo..<Suc top]
      in if greedy then rev counts else counts)"

fun rmatch :: "bool \<Rightarrow> regex \<Rightarrow> mstate \<Rightarrow> mstate list" where
  "rmatch ic Eps s = [s]"
| "rmatch ic (Atom k) (b, r, g) =
     (case r of [] \<Rightarrow> [] | c # r' \<Rightarrow> if cc_match ic k c then [(c # b, r', g)] else [])"
| "rmatch ic Bol (b, r, g) = (if b = [] then [(b, r, g)] else [])"
| "rmatch ic Eol (b, r, g) = (if r = [] \<or> r = [newline] then [(b, r, g)] else [])"
| "rmatch ic WordB (b, r, g) = (if at_word_boundary b r then [(b, r, g)] else [])"
| "rmatch ic (Seq p q) s = concat (map (rmatch ic q) (rmatch ic p s))"
| "rmatch ic (Alt p q) s = rmatch ic p s @ rmatch ic q s"
| "rmatch ic (Rep greedy lo hi k) (b, r, g) =
     map (\<lambda>n. (rev (take n r) @ b, drop n r, g))
       (rep_counts greedy lo hi (length (takeWhile (cc_match ic k) r)))"
| "rmatch ic (Opt p) s = rmatch ic p s @ [s]"
| "rmatch ic (Group n p) (b, r, g) =
     map (\<lambda>(b', r', g'). (b', r', (n, take (length r - length r') r) # g'))
       (rmatch ic p (b, r, g))"

text \<open>The match that is found first from a state, if there is one.\<close>

definition first_match :: "bool \<Rightarrow> regex \<Rightarrow> mstate \<Rightarrow> mstate option" where
  "first_match ic p s = (case rmatch ic p s of [] \<Rightarrow> None | x # _ \<Rightarrow> Some x)"

text \<open>\<^verbatim>\<open>re.match\<close>: the first match starting at the beginning of the line, as its groups.\<close>

definition re_match :: "bool \<Rightarrow> regex \<Rightarrow> string \<Rightarrow> (nat \<times> string) list option" where
  "re_match ic p s =
     (case rmatch ic p ([], s, []) of [] \<Rightarrow> None | (b, r, g) # _ \<Rightarrow> Some g)"

text \<open>\<^verbatim>\<open>re.search\<close>: the first match starting at the leftmost possible offset.\<close>

fun search_from :: "bool \<Rightarrow> regex \<Rightarrow> string \<Rightarrow> string \<Rightarrow> (nat \<times> string) list option" where
  "search_from ic p b [] =
     (case rmatch ic p (b, [], []) of [] \<Rightarrow> None | (b', r', g) # _ \<Rightarrow> Some g)"
| "search_from ic p b (c # r) =
     (case rmatch ic p (b, c # r, []) of
        [] \<Rightarrow> search_from ic p (c # b) r
      | (b', r', g) # _ \<Rightarrow> Some g)"

definition re_search :: "bool \<Rightarrow> regex \<Rightarrow> string \<Rightarrow> (nat \<times> string) list option" where
  "re_search ic p s = search_from ic p [] s"

text \<open>\<^verbatim>\<open>match.group(n)\<close> for a group that took part in the match.\<close>

definition group :: "(nat \<times> string) list \<Rightarrow> nat \<Rightarrow> string" where
  "group g n = (case map_of g n of None \<Rightarrow> [] | Some t \<Rightarrow> t)"

fun lits :: "string \<Rightarrow> regex" where
  "lits [] = Eps"
| "lits [c] = Atom (Lit c)"
| "lits (c # cs) = Seq (Atom (Lit c)) (lits cs)"

text \<open>A pattern without anchors and groups: how it matches depends only on the text still
  to read.\<close>

fun plain :: "regex \<Rightarrow> bool" where
  "plain Bol = False"
| "plain WordB = False"
| "plain (Group n p) = False"
| "plain (Seq p q) = (plain p \<and> plain q)"
| "plain (Alt p q) = (plain p \<and> plain q)"
| "plain (Opt p) = plain p"
| "plain Eps = True"
| "plain (Atom k) = True"
| "plain Eol = True"
| "plain (Rep greedy lo hi k) = True"

abbreviation plus :: "cclass \<Rightarrow> regex" where
  "plus k \<equiv> Rep True 1 None k"

subsection \<open>The patterns of the extractor\<close>

text \<open>\<^verbatim>\<open>\bActive\s+Requirements\b\<close>, searched with \<^verbatim>\<open>re.IGNORECASE\<close>.\<close>

definition marker_re :: regex where
  "marker_re = Seq WordB (Seq (lits ''Active'') (Seq (plus Space)
                 (Seq (lits ''Requirements'') WordB)))"

text \<open>\<^verbatim>\<open>^\d{1,2}\.\d+\s+|^[A-Z][a-zA-Z\s]+:\<close>\<close>

definition boundary_re :: regex where
  "boundary_re =
     Alt (Seq Bol (Seq (Rep True 1 (Some 2) Digit) (Seq (Atom (Lit CHR ''.''))
            (Seq (plus Digit) (plus Space)))))
         (Seq Bol (Seq (Atom (Range CHR ''A'' CHR ''Z''))
            (Seq (plus (Union (Range CHR ''a'' CHR ''z'') (Union (Range CHR ''A'' CHR ''Z'') Space)))
               (Atom (Lit CHR '':'')))))"

text \<open>\<^verbatim>\<open>REQ-[\w-]+\s+v\d+\<close>\<close>

definition row_start_re :: regex where
  "row_start_re =
     Seq (lits ''REQ-'') (Seq (plus (Union Word (Lit CHR ''-''))) (Seq (plus Space)
       (Seq (Atom (Lit CHR ''v'')) (plus Digit))))"

text \<open>The trailing annotation \<^verbatim>\<open>\s+\(\w+\)\s*\d+\<close> of the strict pattern.\<close>

definition annotation_re :: regex where
  "annotation_re =
     Seq (plus Space) (Seq (Atom (Lit CHR ''('')) (Seq (plus Word) (Seq (Atom (Lit CHR '')''))
       (Seq (Rep True 0 None Space) (plus Digit)))))"

text \<open>\<^verbatim>\<open>^(REQ-[\w-]+)\s+v(\d+)\s+(.+?)(?:\s+\(\w+\)\s*\d+)?$\<close>\<close>

definition strict_re :: regex where
  "strict_re =
     Seq Bol (Seq (Group 1 (Seq (lits ''REQ-'') (plus (Union Word (Lit CHR ''-'')))))
       (Seq (plus Space) (Seq (Atom (Lit CHR ''v'')) (Seq (Group 2 (plus Digit))
         (Seq (plus Space) (Seq (Group 3 (Rep False 1 None Dot))
           (Seq (Opt annotation_re) Eol)))))))"

section \<open>The extractor\<close>

datatype py_exn = FileNotFoundError | OtherException | IndexError

text \<open>The local variables of \<^verbatim>\<open>extract_active_requirements_table\<close> that live across lines
  and pages.\<close>

record scan_state =
  capturing :: bool
  data :: "string list list"
  current_row :: "string list"

definition init_state :: scan_state where
  "init_state = \<lparr>capturing = False, data = [], current_row = []\<rparr>"

text \<open>\<^verbatim>\<open>xs[i] = v\<close>: Python raises \<^verbatim>\<open>IndexError\<close> when the index is out of range.\<close>

definition list_assign :: "'a list \<Rightarrow> nat \<Rightarrow> 'a \<Rightarrow> py_exn + 'a list" where
  "list_assign xs i v = (if i < length xs then Inr (xs[i := v]) else Inl IndexError)"

text \<open>\<^verbatim>\<open>if current_row: if len(current_row) >= 2: data.append(current_row[:2])\<close>
  followed by \<^verbatim>\<open>current_row = []\<close> (lines 60 to 63).\<close>

definition save_partial :: "scan_state \<Rightarrow> scan_state" where
  "save_partial s =
     (if current_row s \<noteq> [] then
        (if length (current_row s) \<ge> 2
         then s\<lparr>data := data s @ [take 2 (current_row s)], current_row := []\<rparr>
         else s\<lparr>current_row := []\<rparr>)
      else s)"

text \<open>The identifier and the name that lines 68 and 69 build from the groups of a strict
  match.\<close>

definition row_id :: "(nat \<times> string) list \<Rightarrow> string" where
  "row_id m = strip (group m 1 @ '' v'' @ group m 2)"

definition row_name :: "(nat \<times> string) list \<Rightarrow> string" where
  "row_name m = strip (group m 3)"

text \<open>Lines 65 to 73: the strict parse of a row-start line.\<close>

definition start_row :: "scan_state \<Rightarrow> string \<Rightarrow> scan_state" where
  "start_row s line =
     (case re_match False strict_re line of
        Some m \<Rightarrow> s\<lparr>current_row := [row_id m, row_name m]\<rparr>
      | None \<Rightarrow> s\<lparr>current_row := current_row s @ [line]\<rparr>)"

text \<open>The three tests of the loop on a stripped line: the region marker (line 45), a
  section heading that ends the table (line 52), the start of a row (line 58).\<close>

definition is_marker :: "string \<Rightarrow> bool" where
  "is_marker line = (re_search True marker_re line \<noteq> None)"

definition is_boundary :: "string \<Rightarrow> bool" where
  "is_boundary line = (re_match False boundary_re line \<noteq> None)"

definition is_row_start :: "string \<Rightarrow> bool" where
  "is_row_start line = (re_match False row_start_re line \<noteq> None)"

text \<open>What one iteration of the loop over the lines of a page does: go on with the next
  line, leave the loop (\<^verbatim>\<open>break\<close>), or raise.\<close>

datatype flow = Next scan_state | Break scan_state | Raise py_exn

definition loop_body :: "scan_state \<Rightarrow> string \<Rightarrow> flow" where
  "loop_body s raw =
     (let line = strip raw in
      if line = [] then Next s
      else if \<not> capturing s \<and> is_marker line
        then Next (s\<lparr>capturing := True\<rparr>)
      else if capturing s then
        (if is_boundary line then Break (s\<lparr>capturing := False\<rparr>)
         else if is_row_start line
           then Next (start_row (save_partial s) line)
         else if current_row s \<noteq> [] then
           (case list_assign (current_row s) 1
                   (if length (current_row s) > 1
                    then strip (current_row s ! 1 @ '' '' @ line) else line) of
              Inl e \<Rightarrow> Raise e
            | Inr row \<Rightarrow> Next (s\<lparr>current_row := row\<rparr>))
         else Next s)
      else Next s)"

fun for_lines :: "scan_state \<Rightarrow> string list \<Rightarrow> py_exn + scan_state" where
  "for_lines s [] = Inr s"
| "for_lines s (raw # rest) =
     (case loop_body s raw of
        Next s' \<Rightarrow> for_lines s' rest
      | Break s' \<Rightarrow> Inr s'
      | Raise e \<Rightarrow> Inl e)"

text \<open>Lines 79 to 81: the flush at the end of a page.\<close>

definition page_end :: "scan_state \<Rightarrow> scan_state" where
  "page_end s =
     (if capturing s \<and> current_row s \<noteq> [] \<and> length (current_row s) \<ge> 2
      then s\<lparr>data := data s @ [take 2 (current_row s)], current_row := []\<rparr>
      else s)"

text \<open>The body of the loop over the pages. A page text is \<open>None\<close> when
  \<^verbatim>\<open>extract_text()\<close> returns \<^verbatim>\<open>None\<close>; \<^verbatim>\<open>not text\<close> also holds for the empty string.\<close>

definition process_page :: "scan_state \<Rightarrow> string option \<Rightarrow> py_exn + scan_state" where
  "process_page s page =
     (case page of
        None \<Rightarrow> Inr s
      | Some text \<Rightarrow>
          if text = [] then Inr s
          else (case for_lines s (split newline text) of
                  Inl e \<Rightarrow> Inl e
                | Inr s' \<Rightarrow> Inr (page_end s')))"

fun for_pages :: "scan_state \<Rightarrow> string option list \<Rightarrow> py_exn + scan_state" where
  "for_pages s [] = Inr s"
| "for_pages s (page # rest) =
     (case process_page s page of Inl e \<Rightarrow> Inl e | Inr s' \<Rightarrow> for_pages s' rest)"

text \<open>Lines 84 and 85: the final flush.\<close>

definition finalize :: "scan_state \<Rightarrow> string list list" where
  "finalize s =
     (if current_row s \<noteq> [] \<and> length (current_row s) \<ge> 2
      then data s @ [take 2 (current_row s)] else data s)"

text \<open>The pass over a document whose pages could be read: the rows collected, or the
  exception raised on the way.\<close>

definition scan :: "string option list \<Rightarrow> py_exn + string list list" where
  "scan pages =
     (case for_pages init_state pages of Inl e \<Rightarrow> Inl e | Inr s \<Rightarrow> Inr (finalize s))"

text \<open>A \<^verbatim>\<open>pandas.DataFrame\<close>, as its column names and its rows.\<close>

record dataframe =
  columns :: "string list"
  rows :: "string list list"

definition headers :: "string list" where
  "headers = [''Unique ID'', ''Name'']"

text \<open>What is behind \<^verbatim>\<open>pdf_path\<close>: no file, a file that \<^verbatim>\<open>open\<close> or \<^verbatim>\<open>PdfReader\<close> cannot
  read, or a document with the text of each of its pages.\<close>

datatype pdf_file = Missing | Unreadable | Document "string option list"

text \<open>The body of the \<^verbatim>\<open>try\<close> block (lines 22 to 93).\<close>

definition try_body :: "pdf_file \<Rightarrow> py_exn + dataframe option" where
  "try_body f =
     (case f of
        Missing \<Rightarrow> Inl FileNotFoundError
      | Unreadable \<Rightarrow> Inl OtherException
      | Document pages \<Rightarrow>
          (case scan pages of
             Inl e \<Rightarrow> Inl e
           | Inr d \<Rightarrow> if d \<noteq> [] then Inr (Some \<lparr>columns = headers, rows = d\<rparr>) else Inr None))"

text \<open>The function with its two handlers (lines 95 to 100): both return \<^verbatim>\<open>None\<close>.\<close>

definition extract_active_requirements_table :: "pdf_file \<Rightarrow> dataframe option" where
  "extract_active_requirements_table f =
     (case try_body f of
        Inl FileNotFoundError \<Rightarrow> None
      | Inl _ \<Rightarrow> None
      | Inr result \<Rightarrow> result)"


section \<open>Notions of the specification\<close>

text \<open>The space-joined concatenation of a title and its continuation lines.\<close>

fun space_joined :: "string list \<Rightarrow> string" where
  "space_joined [] = []"
| "space_joined [l] = l"
| "space_joined (l # ls) = l @ '' '' @ space_joined ls"

text \<open>A text that is a trailing annotation \<^verbatim>\<open>(word) number\<close> with the whitespace before
  it: the annotation pattern matches it up to its end.\<close>

definition is_annotation :: "string \<Rightarrow> bool" where
  "is_annotation a = list_ex (\<lambda>(b, r, g). r = []) (rmatch False annotation_re ([], a, []))"

text \<open>A title that itself ends with such an annotation.\<close>

definition ends_with_annotation :: "string \<Rightarrow> bool" where
  "ends_with_annotation t = list_ex (\<lambda>n. is_annotation (drop n t)) [1..<length t]"

text \<open>A page on which no line holds the region marker.\<close>

definition marker_free :: "string option \<Rightarrow> bool" where
  "marker_free page =
     (case page of None \<Rightarrow> True
      | Some text \<Rightarrow> list_all (\<lambda>raw. \<not> is_marker (strip raw)) (split newline text))"

text \<open>The row with identifier \<open>i\<close> follows the rows \<open>D\<close>: it is the row in progress, or
  it is already in the output, right after \<open>D\<close>.\<close>

definition row_kept :: "string list list \<Rightarrow> string \<Rightarrow> scan_state \<Rightarrow> bool" where
  "row_kept D i s =
     ((data s = D \<and> (\<exists>n. current_row s = [i, n])) \<or> (\<exists>n later. data s = D @ [i, n] # later))"

section \<open>Example documents\<close>

text \<open>A page text from its lines: the lines joined by newline characters.\<close>

fun unlines :: "string list \<Rightarrow> string" where
  "unlines [] = []"
| "unlines [l] = l"
| "unlines (l # ls) = l @ newline # unlines ls"

text \<open>The single-page example of the specification.\<close>

definition engine_brake_page :: string where
  "engine_brake_page = unlines [''Active Requirements'',
     ''REQ-100 v1 Engine shall report speed'',
     ''to the dashboard module (v2) 14'',
     ''REQ-101 v1 Brake system shall fail safe'']"

text \<open>A page in which the row-start line \<^verbatim>\<open>REQ-2 v1\<close> has no title, so that it fits the
  row-start pattern and not the strict one, and is followed by a continuation line.\<close>

definition untitled_row_page :: string where
  "untitled_row_page = unlines [''Active Requirements'',
     ''REQ-1 v1 Good row'',
     ''REQ-2 v1'',
     ''continuation text'']"

text \<open>The same irregular line, followed by another row-start line.\<close>

definition untitled_between_rows_page :: string where
  "untitled_between_rows_page = unlines [''Active Requirements'',
     ''REQ-1 v1 First'',
     ''REQ-2 v1'',
     ''REQ-3 v1 Third'']"

text \<open>A document of three pages: the table ends at a section heading on the first page,
  the region marker comes again on the second, and the third holds plain text.\<close>

definition reopened_pages :: "string option list" where
  "reopened_pages = [Some (unlines [''Active Requirements'', ''REQ-1 v1 A'', ''1.2 Next'']),
     Some ''Active Requirements'',
     Some ''more text'']"

text \<open>A page on which a section heading comes right after a row-start line that has no
  title.\<close>

definition untitled_before_heading_page :: string where
  "untitled_before_heading_page = unlines [''Active Requirements'',
     ''REQ-1 v1 A'',
     ''REQ-2 v1'',
     ''1.2 Next'']"

text \<open>A page on which the only row-start line has no title and is followed by a
  continuation line.\<close>

definition untitled_only_row_page :: string where
  "untitled_only_row_page = unlines [''Active Requirements'',
     ''REQ-2 v1'',
     ''continuation text'']"

section \<open>Results\<close>

subsection \<open>Pages, one after the other\<close>

lemma for_pages_append:
  "for_pages s (ps @ qs) = (case for_pages s ps of Inl e \<Rightarrow> Inl e | Inr s' \<Rightarrow> for_pages s' qs)"
  by (induction ps arbitrary: s) (auto split: sum.splits)

lemma process_page_no_text:
  "page = None \<or> page = Some [] \<Longrightarrow> process_page s page = Inr s"
  by (auto simp: process_page_def)

subsection \<open>The end-to-end example\<close>

text \<open>
  Claim C6, as the code has it. On the single page with the lines
  \<^verbatim>\<open>Active Requirements\<close>, \<^verbatim>\<open>REQ-100 v1 Engine shall report speed\<close>,
  \<^verbatim>\<open>to the dashboard module (v2) 14\<close> and \<^verbatim>\<open>REQ-101 v1 Brake system shall fail safe\<close> the result
  has exactly two rows, in this order. The continuation line is appended to the name of
  REQ-100 as it stands: the annotation \<^verbatim>\<open>(v2) 14\<close> at its end stays in the name, since only
  the strict pattern of a row-start line drops an annotation.
\<close>

theorem c6_engine_brake_rows:
  "extract_active_requirements_table (Document [Some engine_brake_page]) =
     Some \<lparr>columns = [''Unique ID'', ''Name''],
           rows = [[''REQ-100 v1'', ''Engine shall report speed to the dashboard module (v2) 14''],
                   [''REQ-101 v1'', ''Brake system shall fail safe'']]\<rparr>"
  by code_simp

text \<open>The first row does not have the name \<^verbatim>\<open>Engine shall report speed to the dashboard module\<close>
  that claim C6 gives it.\<close>

theorem c6_annotation_kept_counterexample:
  "extract_active_requirements_table (Document [Some engine_brake_page]) \<noteq>
     Some \<lparr>columns = [''Unique ID'', ''Name''],
           rows = [[''REQ-100 v1'', ''Engine shall report speed to the dashboard module''],
                   [''REQ-101 v1'', ''Brake system shall fail safe'']]\<rparr>"
  by code_simp

subsection \<open>The return value when nothing is found\<close>

text \<open>
  Claim C2, as the code has it. When the scan of a readable document collects no row, the
  function returns \<^verbatim>\<open>None\<close>, and it returns the same \<^verbatim>\<open>None\<close> for a missing and for an
  unreadable file: the three outcomes differ in the path taken inside the function (the
  normal return against the two handlers), not in the value returned.
\<close>

theorem c2_empty_returns_none_like_fatal_io:
  assumes "scan pages = Inr []"
  shows "extract_active_requirements_table (Document pages) = None
       \<and> extract_active_requirements_table Missing = None
       \<and> extract_active_requirements_table Unreadable = None
       \<and> try_body (Document pages) = Inr None
       \<and> try_body Missing = Inl FileNotFoundError
       \<and> try_body Unreadable = Inl OtherException"
  using assms by (simp add: extract_active_requirements_table_def try_body_def)

theorem c2_empty_returns_none_like_fatal_io_witness:
  "scan [Some ''Introduction''] = Inr []
   \<and> extract_active_requirements_table (Document [Some ''Introduction'']) = None
   \<and> extract_active_requirements_table Missing = None"
proof -
  have no_rows: "scan [Some ''Introduction''] = Inr []"
    by code_simp
  from c2_empty_returns_none_like_fatal_io [OF no_rows] no_rows show ?thesis
    by simp
qed

text \<open>The empty outcome and the outcome for a missing file are the same value.\<close>

theorem c2_not_distinct_counterexample:
  "extract_active_requirements_table (Document [Some ''Introduction'']) =
   extract_active_requirements_table Missing"
  by code_simp

subsection \<open>A readable document on which the extractor fails\<close>

text \<open>
  Claim C3 at a failing input. The file is readable and has one page. The line
  \<^verbatim>\<open>REQ-2 v1\<close> fits the row-start pattern and not the strict one, so the row in progress
  becomes the one-element list of that line; the assignment to its second element for the
  continuation line raises \<^verbatim>\<open>IndexError\<close>, the general handler catches it, and the function
  returns \<^verbatim>\<open>None\<close>, the rows collected so far being lost.
\<close>

theorem c3_index_error_on_readable_document:
  "scan [Some untitled_row_page] = Inl IndexError
   \<and> try_body (Document [Some untitled_row_page]) = Inl IndexError
   \<and> extract_active_requirements_table (Document [Some untitled_row_page]) = None"
  by code_simp

subsection \<open>Pages without text\<close>

text \<open>
  Claim C9. A page whose text is absent or empty leaves the scan state as it is (the
  capturing flag, the row in progress and the rows collected), and the pages after it are
  scanned as if it were not there: the states after the pages, the rows of the scan and the
  value returned are those of the document without that page.
\<close>

theorem c9_page_without_text_skipped:
  assumes "page = None \<or> page = Some []"
  shows "process_page s page = Inr s
       \<and> for_pages s (before @ page # after) = for_pages s (before @ after)
       \<and> scan (before @ page # after) = scan (before @ after)
       \<and> extract_active_requirements_table (Document (before @ page # after)) =
           extract_active_requirements_table (Document (before @ after))"
proof -
  have skip: "\<And>t. process_page t page = Inr t"
    using assms by (rule process_page_no_text)
  have pages: "\<And>t. for_pages t (before @ page # after) = for_pages t (before @ after)"
    by (simp add: for_pages_append skip split: sum.splits)
  show ?thesis
    by (simp add: skip pages scan_def try_body_def extract_active_requirements_table_def)
qed

theorem c9_page_without_text_skipped_witness:
  "process_page init_state None = Inr init_state
   \<and> scan ([Some ''Active Requirements''] @ None # [Some ''REQ-1 v1 A'']) = Inr [[''REQ-1 v1'', ''A'']]"
proof -
  have absent: "(None :: string option) = None \<or> None = Some []"
    by simp
  have rest: "scan ([Some ''Active Requirements''] @ [Some ''REQ-1 v1 A'']) = Inr [[''REQ-1 v1'', ''A'']]"
    by code_simp
  from c9_page_without_text_skipped [OF absent, of init_state "[Some ''Active Requirements'']" "[Some ''REQ-1 v1 A'']"]
    rest show ?thesis
    by simp
qed

subsection \<open>One line at a time\<close>

lemma loop_body_blank: "strip raw = [] \<Longrightarrow> loop_body s raw = Next s"
  by (simp add: loop_body_def)

lemma loop_body_marker:
  "\<not> capturing s \<Longrightarrow> strip raw \<noteq> [] \<Longrightarrow> is_marker (strip raw) \<Longrightarrow>
   loop_body s raw = Next (s\<lparr>capturing := True\<rparr>)"
  by (simp add: loop_body_def)

lemma loop_body_outside:
  "\<not> capturing s \<Longrightarrow> \<not> is_marker (strip raw) \<Longrightarrow> loop_body s raw = Next s"
  by (simp add: loop_body_def Let_def)

lemma loop_body_boundary:
  "capturing s \<Longrightarrow> strip raw \<noteq> [] \<Longrightarrow> is_boundary (strip raw) \<Longrightarrow>
   loop_body s raw = Break (s\<lparr>capturing := False\<rparr>)"
  by (simp add: loop_body_def)

lemma loop_body_row_start:
  "capturing s \<Longrightarrow> strip raw \<noteq> [] \<Longrightarrow> \<not> is_boundary (strip raw) \<Longrightarrow>
   is_row_start (strip raw) \<Longrightarrow>
   loop_body s raw = Next (start_row (save_partial s) (strip raw))"
  by (simp add: loop_body_def)

lemma loop_body_continuation:
  "capturing s \<Longrightarrow> strip raw \<noteq> [] \<Longrightarrow> \<not> is_boundary (strip raw) \<Longrightarrow>
   \<not> is_row_start (strip raw) \<Longrightarrow> current_row s = [i, n] \<Longrightarrow>
   loop_body s raw = Next (s\<lparr>current_row := [i, strip (n @ '' '' @ strip raw)]\<rparr>)"
  by (simp add: loop_body_def list_assign_def)

lemma loop_body_no_row:
  "capturing s \<Longrightarrow> \<not> is_boundary (strip raw) \<Longrightarrow>
   \<not> is_row_start (strip raw) \<Longrightarrow> current_row s = [] \<Longrightarrow>
   loop_body s raw = Next s"
  by (simp add: loop_body_def Let_def)

lemma loop_body_Break_capturing: "loop_body s raw = Break s' \<Longrightarrow> \<not> capturing s'"
  by (auto simp: loop_body_def Let_def list_assign_def split: if_splits sum.splits)

subsection \<open>The output only grows\<close>

lemma save_partial_data: "prefix (data s) (data (save_partial s))"
  by (simp add: save_partial_def)

lemma start_row_data: "data (start_row s line) = data s"
  by (simp add: start_row_def split: option.splits)

lemma start_row_capturing: "capturing (start_row s line) = capturing s"
  by (simp add: start_row_def split: option.splits)

lemma save_partial_capturing: "capturing (save_partial s) = capturing s"
  by (simp add: save_partial_def)

lemma loop_body_data:
  "loop_body s raw = Next s' \<or> loop_body s raw = Break s' \<Longrightarrow> prefix (data s) (data s')"
  by (auto simp: loop_body_def Let_def list_assign_def start_row_data save_partial_data
      split: if_splits sum.splits)






lemma for_lines_outside:
  "\<not> capturing s \<Longrightarrow> list_all (\<lambda>raw. \<not> is_marker (strip raw)) ls \<Longrightarrow> for_lines s ls = Inr s"
  by (induction ls) (simp_all add: loop_body_outside)

lemma process_page_marker_free:
  "\<not> capturing s \<Longrightarrow> marker_free page \<Longrightarrow> process_page s page = Inr s"
  by (auto simp: process_page_def marker_free_def page_end_def for_lines_outside
      split: option.splits)

lemma for_pages_marker_free:
  "\<not> capturing s \<Longrightarrow> list_all marker_free pages \<Longrightarrow> for_pages s pages = Inr s"
  by (induction pages) (simp_all add: process_page_marker_free)

lemma for_lines_still_capturing:
  "for_lines s ls = Inr t \<Longrightarrow> capturing t \<Longrightarrow> for_lines s (ls @ later) = for_lines t later"
proof (induction ls arbitrary: s)
  case Nil
  then show ?case by simp
next
  case (Cons raw ls)
  show ?case
  proof (cases "loop_body s raw")
    case (Next u)
    with Cons show ?thesis by simp
  next
    case (Break u)
    with Cons.prems have "u = t" by simp
    with Break Cons.prems(2) show ?thesis by (auto dest: loop_body_Break_capturing)
  next
    case (Raise e)
    with Cons.prems show ?thesis by simp
  qed
qed

subsection \<open>A row, once started, reaches the output\<close>

lemma row_kept_committed:
  "\<exists>n later. data s = D @ [i, n] # later \<Longrightarrow> prefix (data s) (data s') \<Longrightarrow> row_kept D i s'"
  by (auto simp: row_kept_def prefix_def)

lemma loop_body_row_kept:
  assumes "row_kept D i s" and "loop_body s raw = Next s' \<or> loop_body s raw = Break s'"
  shows "row_kept D i s'"
proof (cases "\<exists>n later. data s = D @ [i, n] # later")
  case True
  then show ?thesis using loop_body_data[OF assms(2)] by (rule row_kept_committed)
next
  case False
  with assms(1) obtain n where pend: "data s = D" "current_row s = [i, n]"
    by (auto simp: row_kept_def)
  from assms(2) pend show ?thesis
    by (auto simp: loop_body_def Let_def list_assign_def row_kept_def save_partial_def
        start_row_def split: if_splits option.splits)
qed

lemma for_lines_row_kept:
  "row_kept D i s \<Longrightarrow> for_lines s ls = Inr s' \<Longrightarrow> row_kept D i s'"
proof (induction ls arbitrary: s)
  case Nil
  then show ?case by simp
next
  case (Cons raw ls)
  show ?case
  proof (cases "loop_body s raw")
    case (Next t)
    with Cons.prems(1) have "row_kept D i t" by (auto intro: loop_body_row_kept)
    moreover from Next Cons.prems(2) have "for_lines t ls = Inr s'" by simp
    ultimately show ?thesis by (rule Cons.IH)
  next
    case (Break t)
    with Cons.prems show ?thesis by (auto intro: loop_body_row_kept)
  next
    case (Raise e)
    with Cons.prems show ?thesis by simp
  qed
qed

lemma page_end_row_kept: "row_kept D i s \<Longrightarrow> row_kept D i (page_end s)"
  by (auto simp: row_kept_def page_end_def)

lemma process_page_row_kept:
  "row_kept D i s \<Longrightarrow> process_page s page = Inr s' \<Longrightarrow> row_kept D i s'"
  by (auto simp: process_page_def split: option.splits if_splits sum.splits
      intro: page_end_row_kept for_lines_row_kept)

lemma for_pages_row_kept:
  "row_kept D i s \<Longrightarrow> for_pages s pages = Inr s' \<Longrightarrow> row_kept D i s'"
proof (induction pages arbitrary: s)
  case Nil
  then show ?case by simp
next
  case (Cons page pages)
  from Cons.prems(2) obtain t where t: "process_page s page = Inr t"
    and rest: "for_pages t pages = Inr s'"
    by (auto split: sum.splits)
  from Cons.prems(1) t have "row_kept D i t" by (rule process_page_row_kept)
  then show ?case using rest by (rule Cons.IH)
qed

lemma finalize_row_kept: "row_kept D i s \<Longrightarrow> \<exists>n later. finalize s = D @ [i, n] # later"
  by (auto simp: row_kept_def finalize_def)

lemma split_two_nonempty: "split sep text = a # b # rest \<Longrightarrow> text \<noteq> []"
  by auto

subsection \<open>The flush at the end of a page\<close>



subsection \<open>A row in progress when the table ends\<close>

text \<open>
  Claim C10, as the code has it. Let a section heading have ended capturing while a row
  \<open>[i, n]\<close> is in progress. The flush at the end of that page leaves it in progress; so does
  every page without the region marker. A line with the marker starts capturing again, and
  then a continuation line is appended to the name of that row, a section heading stops
  capturing again with the row still in progress, and the row is appended to the output by
  the next row-start line, by the flush at the end of a page that ends while capturing is
  true, or by the final flush.
\<close>

theorem c10_pending_row_after_boundary:
  assumes "\<not> capturing s" and "current_row s = [i, n]"
  shows "page_end s = s
       \<and> (marker_free page \<longrightarrow> process_page s page = Inr s)
       \<and> (list_all marker_free pages \<longrightarrow> for_pages s pages = Inr s)
       \<and> (strip raw1 \<noteq> [] \<and> is_marker (strip raw1) \<longrightarrow>
            loop_body s raw1 = Next (s\<lparr>capturing := True\<rparr>))
       \<and> (strip raw2 \<noteq> [] \<and> \<not> is_boundary (strip raw2) \<and> \<not> is_row_start (strip raw2) \<longrightarrow>
            loop_body (s\<lparr>capturing := True\<rparr>) raw2 =
              Next (s\<lparr>capturing := True, current_row := [i, strip (n @ '' '' @ strip raw2)]\<rparr>))
       \<and> (strip raw3 \<noteq> [] \<and> is_boundary (strip raw3) \<longrightarrow>
            loop_body (s\<lparr>capturing := True\<rparr>) raw3 = Break s)
       \<and> (strip raw4 \<noteq> [] \<and> \<not> is_boundary (strip raw4) \<and> is_row_start (strip raw4) \<longrightarrow>
            loop_body (s\<lparr>capturing := True\<rparr>) raw4 =
              Next (start_row (s\<lparr>capturing := True, data := data s @ [[i, n]], current_row := []\<rparr>)
                      (strip raw4)))
       \<and> page_end (s\<lparr>capturing := True\<rparr>) =
            s\<lparr>capturing := True, data := data s @ [[i, n]], current_row := []\<rparr>
       \<and> finalize s = data s @ [[i, n]]"
proof -
  let ?c = "s\<lparr>capturing := True\<rparr>"
  have c: "capturing ?c" "current_row ?c = [i, n]"
    using assms by simp_all
  have reopened: "?c\<lparr>capturing := False\<rparr> = s"
    using assms(1) by simp
  have saved: "save_partial ?c = s\<lparr>capturing := True, data := data s @ [[i, n]], current_row := []\<rparr>"
    using assms(2) by (simp add: save_partial_def)
  have "page_end s = s"
    using assms(1) by (simp add: page_end_def)
  moreover have "marker_free page \<longrightarrow> process_page s page = Inr s"
    using assms(1) by (simp add: process_page_marker_free)
  moreover have "list_all marker_free pages \<longrightarrow> for_pages s pages = Inr s"
    using assms(1) by (simp add: for_pages_marker_free)
  moreover have "strip raw1 \<noteq> [] \<and> is_marker (strip raw1) \<longrightarrow>
      loop_body s raw1 = Next ?c"
    using assms(1) by (simp add: loop_body_marker)
  moreover have "strip raw2 \<noteq> [] \<and> \<not> is_boundary (strip raw2) \<and> \<not> is_row_start (strip raw2) \<longrightarrow>
      loop_body ?c raw2 = Next (s\<lparr>capturing := True, current_row := [i, strip (n @ '' '' @ strip raw2)]\<rparr>)"
    using loop_body_continuation [of ?c raw2 i n] c by simp
  moreover have "strip raw3 \<noteq> [] \<and> is_boundary (strip raw3) \<longrightarrow> loop_body ?c raw3 = Break s"
    using loop_body_boundary [of ?c raw3] c(1) reopened by simp
  moreover have "strip raw4 \<noteq> [] \<and> \<not> is_boundary (strip raw4) \<and> is_row_start (strip raw4) \<longrightarrow>
      loop_body ?c raw4 =
        Next (start_row (s\<lparr>capturing := True, data := data s @ [[i, n]], current_row := []\<rparr>)
                (strip raw4))"
    using loop_body_row_start [of ?c raw4] c(1) saved by simp
  moreover have "page_end ?c = s\<lparr>capturing := True, data := data s @ [[i, n]], current_row := []\<rparr>"
    using assms(2) by (simp add: page_end_def)
  moreover have "finalize s = data s @ [[i, n]]"
    using assms(2) by (simp add: finalize_def)
  ultimately show ?thesis by blast
qed

theorem c10_pending_row_after_boundary_witness:
  "loop_body \<lparr>capturing = False, data = [], current_row = [''REQ-1 v1'', ''A'']\<rparr>
       ''Active Requirements'' =
     Next \<lparr>capturing = True, data = [], current_row = [''REQ-1 v1'', ''A'']\<rparr>
   \<and> loop_body \<lparr>capturing = True, data = [], current_row = [''REQ-1 v1'', ''A'']\<rparr> ''more text'' =
     Next \<lparr>capturing = True, data = [], current_row = [''REQ-1 v1'', ''A more text'']\<rparr>
   \<and> loop_body \<lparr>capturing = True, data = [], current_row = [''REQ-1 v1'', ''A'']\<rparr> ''1.2 Next'' =
     Break \<lparr>capturing = False, data = [], current_row = [''REQ-1 v1'', ''A'']\<rparr>
   \<and> loop_body \<lparr>capturing = True, data = [], current_row = [''REQ-1 v1'', ''A'']\<rparr> ''REQ-2 v1 B'' =
     Next \<lparr>capturing = True, data = [[''REQ-1 v1'', ''A'']], current_row = [''REQ-2 v1'', ''B'']\<rparr>
   \<and> for_pages \<lparr>capturing = False, data = [], current_row = [''REQ-1 v1'', ''A'']\<rparr>
       [Some ''Appendix'', None] =
     Inr \<lparr>capturing = False, data = [], current_row = [''REQ-1 v1'', ''A'']\<rparr>
   \<and> page_end \<lparr>capturing = True, data = [], current_row = [''REQ-1 v1'', ''A'']\<rparr> =
     \<lparr>capturing = True, data = [[''REQ-1 v1'', ''A'']], current_row = []\<rparr>
   \<and> finalize \<lparr>capturing = False, data = [], current_row = [''REQ-1 v1'', ''A'']\<rparr> =
     [[''REQ-1 v1'', ''A'']]"
proof -
  let ?s = "\<lparr>capturing = False, data = [], current_row = [''REQ-1 v1'', ''A'']\<rparr>"
  have closed: "\<not> capturing ?s" by simp
  have row: "current_row ?s = [''REQ-1 v1'', ''A'']" by simp
  have free: "marker_free (Some ''Appendix'')" "list_all marker_free [Some ''Appendix'', None]"
    by code_simp+
  have l1: "strip ''Active Requirements'' \<noteq> [] \<and> is_marker (strip ''Active Requirements'')"
    by code_simp
  have l2: "strip ''more text'' \<noteq> [] \<and> \<not> is_boundary (strip ''more text'')
      \<and> \<not> is_row_start (strip ''more text'')"
    by code_simp
  have l3: "strip ''1.2 Next'' \<noteq> [] \<and> is_boundary (strip ''1.2 Next'')"
    by code_simp
  have l4: "strip ''REQ-2 v1 B'' \<noteq> [] \<and> \<not> is_boundary (strip ''REQ-2 v1 B'')
      \<and> is_row_start (strip ''REQ-2 v1 B'')"
    by code_simp
  have s2: "strip (''A'' @ '' '' @ strip ''more text'') = ''A more text''"
    by code_simp
  have s4: "start_row \<lparr>capturing = True, data = [[''REQ-1 v1'', ''A'']], current_row = []\<rparr>
      (strip ''REQ-2 v1 B'') =
    \<lparr>capturing = True, data = [[''REQ-1 v1'', ''A'']], current_row = [''REQ-2 v1'', ''B'']\<rparr>"
    by code_simp
  from c10_pending_row_after_boundary [OF closed row, of "Some ''Appendix''"
      "[Some ''Appendix'', None]" "''Active Requirements''" "''more text''" "''1.2 Next''"
      "''REQ-2 v1 B''"] free l1 l2 l3 l4 s2 s4
  show ?thesis by (simp del: for_pages.simps)
qed

text \<open>Against claim C10 as stated: after the second of the three pages, on which the marker
  comes again and no row starts, the row of the first page is already in the output, and
  the text of the third page is not appended to its name.\<close>

theorem c10_flushed_at_later_page_end_counterexample:
  "for_pages init_state (take 1 reopened_pages) =
     Inr \<lparr>capturing = False, data = [], current_row = [''REQ-1 v1'', ''A'']\<rparr>
   \<and> for_pages init_state (take 2 reopened_pages) =
     Inr \<lparr>capturing = True, data = [[''REQ-1 v1'', ''A'']], current_row = []\<rparr>
   \<and> scan reopened_pages = Inr [[''REQ-1 v1'', ''A'']]"
  by code_simp

subsection \<open>A row-start line that the strict pattern rejects\<close>

text \<open>
  Claim C1, as the code has it by design. A line scanned while capturing that fits the
  row-start pattern and not the strict pattern first has the row in progress saved, as
  every row-start line does, and is then held alone as a row of one element. Such a row is
  never put in the output: the flush at the end of a page leaves it, the final flush drops
  it, and when the next line is a row-start line the scan goes on exactly as if the
  irregular line had not been there. (What happens when a continuation line follows is the
  subject of claim C3.)
\<close>

theorem c1_irregular_row_start:
  assumes "capturing s"
    and "strip raw \<noteq> []"
    and "\<not> is_boundary (strip raw)"
    and "is_row_start (strip raw)"
    and "re_match False strict_re (strip raw) = None"
  shows "loop_body s raw = Next ((save_partial s)\<lparr>current_row := [strip raw]\<rparr>)
       \<and> page_end ((save_partial s)\<lparr>current_row := [strip raw]\<rparr>) =
           (save_partial s)\<lparr>current_row := [strip raw]\<rparr>
       \<and> finalize ((save_partial s)\<lparr>current_row := [strip raw]\<rparr>) = finalize s
       \<and> (strip next \<noteq> [] \<and> \<not> is_boundary (strip next) \<and> is_row_start (strip next) \<longrightarrow>
            for_lines s (raw # next # rest) = for_lines s (next # rest))"
proof -
  let ?h = "(save_partial s)\<lparr>current_row := [strip raw]\<rparr>"
  have empty: "current_row (save_partial s) = []"
    by (simp add: save_partial_def)
  have held: "start_row (save_partial s) (strip raw) = ?h"
    using assms(5) empty by (simp add: start_row_def)
  have step: "loop_body s raw = Next ?h"
    using loop_body_row_start [OF assms(1-4)] held by simp
  have flush: "page_end ?h = ?h"
    by (simp add: page_end_def)
  have final: "finalize ?h = finalize s"
    by (simp add: finalize_def save_partial_def)
  have again: "save_partial ?h = save_partial s"
    using empty by (simp add: save_partial_def)
  have cap: "capturing ?h"
    using assms(1) by (simp add: save_partial_capturing)
  have dropped: "for_lines s (raw # next # rest) = for_lines s (next # rest)"
    if "strip next \<noteq> []" "\<not> is_boundary (strip next)" "is_row_start (strip next)"
  proof -
    have "loop_body ?h next = Next (start_row (save_partial s) (strip next))"
      using loop_body_row_start [OF cap that] again by simp
    moreover have "loop_body s next = Next (start_row (save_partial s) (strip next))"
      using loop_body_row_start [OF assms(1) that] .
    ultimately show ?thesis using step by simp
  qed
  from step flush final dropped show ?thesis by blast
qed

theorem c1_irregular_row_start_witness:
  "loop_body \<lparr>capturing = True, data = [], current_row = [''REQ-1 v1'', ''First'']\<rparr> ''REQ-2 v1'' =
     Next \<lparr>capturing = True, data = [[''REQ-1 v1'', ''First'']], current_row = [''REQ-2 v1'']\<rparr>
   \<and> for_lines \<lparr>capturing = True, data = [], current_row = [''REQ-1 v1'', ''First'']\<rparr>
        [''REQ-2 v1'', ''REQ-3 v1 Third''] =
     Inr \<lparr>capturing = True, data = [[''REQ-1 v1'', ''First'']],
           current_row = [''REQ-3 v1'', ''Third'']\<rparr>"
proof -
  let ?s = "\<lparr>capturing = True, data = [], current_row = [''REQ-1 v1'', ''First'']\<rparr>"
  have cap: "capturing ?s" by simp
  have l1: "strip ''REQ-2 v1'' \<noteq> []" by code_simp
  have l2: "\<not> is_boundary (strip ''REQ-2 v1'')" by code_simp
  have l3: "is_row_start (strip ''REQ-2 v1'')" by code_simp
  have l4: "re_match False strict_re (strip ''REQ-2 v1'') = None" by code_simp
  have n: "strip ''REQ-3 v1 Third'' \<noteq> [] \<and> \<not> is_boundary (strip ''REQ-3 v1 Third'')
      \<and> is_row_start (strip ''REQ-3 v1 Third'')"
    by code_simp
  have held: "(save_partial ?s)\<lparr>current_row := [strip ''REQ-2 v1'']\<rparr> =
      \<lparr>capturing = True, data = [[''REQ-1 v1'', ''First'']], current_row = [''REQ-2 v1'']\<rparr>"
    by code_simp
  have after: "for_lines ?s [''REQ-3 v1 Third''] =
      Inr \<lparr>capturing = True, data = [[''REQ-1 v1'', ''First'']],
            current_row = [''REQ-3 v1'', ''Third'']\<rparr>"
    by code_simp
  note w = c1_irregular_row_start [OF cap l1 l2 l3 l4, of "''REQ-3 v1 Third''" "[]"]
  have a: "loop_body ?s ''REQ-2 v1'' =
      Next \<lparr>capturing = True, data = [[''REQ-1 v1'', ''First'']], current_row = [''REQ-2 v1'']\<rparr>"
    using w unfolding held by blast
  have b: "for_lines ?s [''REQ-2 v1'', ''REQ-3 v1 Third''] = for_lines ?s [''REQ-3 v1 Third'']"
    using w n by blast
  from a b after show ?thesis by (simp only: simp_thms)
qed

text \<open>Against claim C1 as stated: the irregular line \<^verbatim>\<open>REQ-2 v1\<close> is not made a continuation
  of the row REQ-1; its text is in no row of the result.\<close>

theorem c1_irregular_line_lost_counterexample:
  "extract_active_requirements_table (Document [Some untitled_between_rows_page]) =
     Some \<lparr>columns = [''Unique ID'', ''Name''],
           rows = [[''REQ-1 v1'', ''First''], [''REQ-3 v1'', ''Third'']]\<rparr>"
  by code_simp

subsection \<open>A section heading right after a row-start line\<close>

text \<open>
  Claim C7, as the code has it by design. Let a row-start line be scanned while capturing
  and let the next line be a section heading. The scan of the page stops at the heading
  with capturing false; the lines after it are not looked at, and the row is not put in the
  output at that point, nor by the flush at the end of that page.

  When the strict pattern accepts the row-start line, its row, and nothing else, is in
  progress. The final flush appends exactly that one row; this is the result when no later
  page holds the region marker, the state then staying as it is. Whatever the later pages
  hold, every scan that completes has a row with this identifier right after the rows that
  were in the output before.

  When the strict pattern rejects the row-start line, the line is held alone as a row of one
  element: the final flush appends nothing for it, and the state stays as it is over pages
  without the region marker.
\<close>

theorem c7_boundary_right_after_row_start:
  assumes "capturing s"
    and "strip r \<noteq> []"
    and "\<not> is_boundary (strip r)"
    and "is_row_start (strip r)"
    and "strip b \<noteq> []"
    and "is_boundary (strip b)"
  shows "(re_match False strict_re (strip r) = Some m \<longrightarrow>
            for_lines s (r # b # rest) =
              Inr ((save_partial s)\<lparr>capturing := False, current_row := [row_id m, row_name m]\<rparr>)
          \<and> (split newline text = r # b # rest \<longrightarrow>
               process_page s (Some text) =
                 Inr ((save_partial s)\<lparr>capturing := False, current_row := [row_id m, row_name m]\<rparr>))
          \<and> finalize ((save_partial s)\<lparr>capturing := False, current_row := [row_id m, row_name m]\<rparr>) =
               data (save_partial s) @ [[row_id m, row_name m]]
          \<and> (list_all marker_free pages \<longrightarrow>
               for_pages ((save_partial s)\<lparr>capturing := False, current_row := [row_id m, row_name m]\<rparr>)
                 pages =
               Inr ((save_partial s)\<lparr>capturing := False, current_row := [row_id m, row_name m]\<rparr>))
          \<and> (\<forall>t. for_pages ((save_partial s)\<lparr>capturing := False,
                      current_row := [row_id m, row_name m]\<rparr>) pages = Inr t \<longrightarrow>
                 (\<exists>n later. finalize t = data (save_partial s) @ [row_id m, n] # later)))
       \<and> (re_match False strict_re (strip r) = None \<longrightarrow>
            for_lines s (r # b # rest) =
              Inr ((save_partial s)\<lparr>capturing := False, current_row := [strip r]\<rparr>)
          \<and> (split newline text = r # b # rest \<longrightarrow>
               process_page s (Some text) =
                 Inr ((save_partial s)\<lparr>capturing := False, current_row := [strip r]\<rparr>))
          \<and> finalize ((save_partial s)\<lparr>capturing := False, current_row := [strip r]\<rparr>) =
               data (save_partial s)
          \<and> (list_all marker_free pages \<longrightarrow>
               for_pages ((save_partial s)\<lparr>capturing := False, current_row := [strip r]\<rparr>) pages =
               Inr ((save_partial s)\<lparr>capturing := False, current_row := [strip r]\<rparr>)))"
proof -
  have cap: "capturing (save_partial s)"
    using assms(1) by (simp add: save_partial_capturing)
  have empty: "current_row (save_partial s) = []"
    by (simp add: save_partial_def)
  have stop: "for_lines s (r # b # rest) = Inr ((save_partial s)\<lparr>capturing := False, current_row := row\<rparr>)
      \<and> (split newline text = r # b # rest \<longrightarrow>
           process_page s (Some text) =
             Inr ((save_partial s)\<lparr>capturing := False, current_row := row\<rparr>))
      \<and> (list_all marker_free pages \<longrightarrow>
           for_pages ((save_partial s)\<lparr>capturing := False, current_row := row\<rparr>) pages =
           Inr ((save_partial s)\<lparr>capturing := False, current_row := row\<rparr>))"
    if started: "start_row (save_partial s) (strip r) = (save_partial s)\<lparr>current_row := row\<rparr>"
    for row
  proof -
    let ?o = "(save_partial s)\<lparr>current_row := row\<rparr>"
    let ?c = "(save_partial s)\<lparr>capturing := False, current_row := row\<rparr>"
    have first: "loop_body s r = Next ?o"
      using loop_body_row_start [OF assms(1-4)] started by simp
    have "capturing ?o"
      using cap by simp
    from loop_body_boundary [OF this assms(5,6)] have second: "loop_body ?o b = Break ?c"
      by simp
    from first second have lines: "for_lines s (r # b # rest) = Inr ?c"
      by simp
    have flush: "page_end ?c = ?c"
      by (simp add: page_end_def)
    have page: "process_page s (Some text) = Inr ?c" if "split newline text = r # b # rest"
      using that lines flush split_two_nonempty [OF that] by (simp add: process_page_def)
    have quiet: "for_pages ?c pages = Inr ?c" if "list_all marker_free pages"
      using that by (simp add: for_pages_marker_free)
    from lines page quiet show ?thesis by blast
  qed
  have accepted: ?thesis if m: "re_match False strict_re (strip r) = Some m"
  proof -
    let ?c = "(save_partial s)\<lparr>capturing := False, current_row := [row_id m, row_name m]\<rparr>"
    have "start_row (save_partial s) (strip r) =
        (save_partial s)\<lparr>current_row := [row_id m, row_name m]\<rparr>"
      using m by (simp add: start_row_def)
    note here = stop [OF this]
    have final: "finalize ?c = data (save_partial s) @ [[row_id m, row_name m]]"
      by (simp add: finalize_def)
    have kept: "row_kept (data (save_partial s)) (row_id m) ?c"
      by (simp add: row_kept_def)
    have general: "\<exists>n later. finalize t = data (save_partial s) @ [row_id m, n] # later"
      if "for_pages ?c pages = Inr t" for t
      using for_pages_row_kept [OF kept that] by (rule finalize_row_kept)
    from here final general m show ?thesis by simp
  qed
  have rejected: ?thesis if none: "re_match False strict_re (strip r) = None"
  proof -
    let ?c = "(save_partial s)\<lparr>capturing := False, current_row := [strip r]\<rparr>"
    have "start_row (save_partial s) (strip r) = (save_partial s)\<lparr>current_row := [strip r]\<rparr>"
      using none empty by (simp add: start_row_def)
    note here = stop [OF this]
    have final: "finalize ?c = data (save_partial s)"
      by (simp add: finalize_def)
    from here final none show ?thesis by simp
  qed
  show ?thesis
  proof (cases "re_match False strict_re (strip r)")
    case None
    then show ?thesis by (rule rejected)
  next
    case (Some m')
    show ?thesis
    proof (cases "m' = m")
      case True
      with Some show ?thesis by (intro accepted) simp
    next
      case False
      with Some show ?thesis by simp
    qed
  qed
qed

theorem c7_boundary_right_after_row_start_witness:
  "process_page \<lparr>capturing = True, data = [], current_row = []\<rparr>
       (Some (unlines [''REQ-1 v1 A'', ''1.2 Next'', ''REQ-2 v1 B''])) =
     Inr \<lparr>capturing = False, data = [], current_row = [''REQ-1 v1'', ''A'']\<rparr>
   \<and> finalize \<lparr>capturing = False, data = [], current_row = [''REQ-1 v1'', ''A'']\<rparr> =
     [[''REQ-1 v1'', ''A'']]
   \<and> for_pages \<lparr>capturing = False, data = [], current_row = [''REQ-1 v1'', ''A'']\<rparr>
       [Some ''Appendix''] =
     Inr \<lparr>capturing = False, data = [], current_row = [''REQ-1 v1'', ''A'']\<rparr>
   \<and> process_page \<lparr>capturing = True, data = [], current_row = []\<rparr>
       (Some (unlines [''REQ-2 v1'', ''1.2 Next'', ''REQ-3 v1 C''])) =
     Inr \<lparr>capturing = False, data = [], current_row = [''REQ-2 v1'']\<rparr>
   \<and> finalize \<lparr>capturing = False, data = [], current_row = [''REQ-2 v1'']\<rparr> = []"
proof -
  let ?s = "\<lparr>capturing = True, data = [], current_row = []\<rparr>"
  let ?m = "[(3, ''A''), (2, ''1''), (1, ''REQ-1'')]"
  have cap: "capturing ?s" by simp
  have r1: "strip ''REQ-1 v1 A'' \<noteq> []" by code_simp
  have r2: "\<not> is_boundary (strip ''REQ-1 v1 A'')" by code_simp
  have r3: "is_row_start (strip ''REQ-1 v1 A'')" by code_simp
  have r4: "re_match False strict_re (strip ''REQ-1 v1 A'') = Some ?m" by code_simp
  have b1: "strip ''1.2 Next'' \<noteq> []" by code_simp
  have b2: "is_boundary (strip ''1.2 Next'')" by code_simp
  have lines: "split newline (unlines [''REQ-1 v1 A'', ''1.2 Next'', ''REQ-2 v1 B'']) =
      ''REQ-1 v1 A'' # ''1.2 Next'' # [''REQ-2 v1 B'']"
    by code_simp
  have free: "list_all marker_free [Some ''Appendix'']" by code_simp
  have st: "(save_partial ?s)\<lparr>capturing := False, current_row := [row_id ?m, row_name ?m]\<rparr> =
      \<lparr>capturing = False, data = [], current_row = [''REQ-1 v1'', ''A'']\<rparr>"
    by code_simp
  note w = c7_boundary_right_after_row_start [OF cap r1 r2 r3 b1 b2,
      of ?m "[''REQ-2 v1 B'']" "unlines [''REQ-1 v1 A'', ''1.2 Next'', ''REQ-2 v1 B'']"
         "[Some ''Appendix'']"]
  have a: "process_page ?s (Some (unlines [''REQ-1 v1 A'', ''1.2 Next'', ''REQ-2 v1 B''])) =
      Inr \<lparr>capturing = False, data = [], current_row = [''REQ-1 v1'', ''A'']\<rparr>"
    using w r4 lines unfolding st by blast
  have b: "for_pages \<lparr>capturing = False, data = [], current_row = [''REQ-1 v1'', ''A'']\<rparr>
      [Some ''Appendix''] =
      Inr \<lparr>capturing = False, data = [], current_row = [''REQ-1 v1'', ''A'']\<rparr>"
    using w r4 free unfolding st by blast
  have "finalize \<lparr>capturing = False, data = [], current_row = [''REQ-1 v1'', ''A'']\<rparr> =
      data (save_partial ?s) @ [[row_id ?m, row_name ?m]]"
    using w r4 unfolding st by blast
  also have "\<dots> = [[''REQ-1 v1'', ''A'']]"
    by code_simp
  finally have c: "finalize \<lparr>capturing = False, data = [], current_row = [''REQ-1 v1'', ''A'']\<rparr> =
      [[''REQ-1 v1'', ''A'']]" .
  have u1: "strip ''REQ-2 v1'' \<noteq> []" by code_simp
  have u2: "\<not> is_boundary (strip ''REQ-2 v1'')" by code_simp
  have u3: "is_row_start (strip ''REQ-2 v1'')" by code_simp
  have u4: "re_match False strict_re (strip ''REQ-2 v1'') = None" by code_simp
  have ulines: "split newline (unlines [''REQ-2 v1'', ''1.2 Next'', ''REQ-3 v1 C'']) =
      ''REQ-2 v1'' # ''1.2 Next'' # [''REQ-3 v1 C'']"
    by code_simp
  have ust: "(save_partial ?s)\<lparr>capturing := False, current_row := [strip ''REQ-2 v1'']\<rparr> =
      \<lparr>capturing = False, data = [], current_row = [''REQ-2 v1'']\<rparr>"
    by code_simp
  note v = c7_boundary_right_after_row_start [OF cap u1 u2 u3 b1 b2,
      of ?m "[''REQ-3 v1 C'']" "unlines [''REQ-2 v1'', ''1.2 Next'', ''REQ-3 v1 C'']"
         "[Some ''Appendix'']"]
  have d: "process_page ?s (Some (unlines [''REQ-2 v1'', ''1.2 Next'', ''REQ-3 v1 C''])) =
      Inr \<lparr>capturing = False, data = [], current_row = [''REQ-2 v1'']\<rparr>"
    using v u4 ulines unfolding ust by blast
  have "finalize \<lparr>capturing = False, data = [], current_row = [''REQ-2 v1'']\<rparr> =
      data (save_partial ?s)"
    using v u4 unfolding ust by blast
  also have "\<dots> = []"
    by code_simp
  finally have e: "finalize \<lparr>capturing = False, data = [], current_row = [''REQ-2 v1'']\<rparr> = []" .
  from a c b d e show ?thesis by (simp only: simp_thms)
qed

text \<open>Against claim C7 as stated. On the first page of the three-page document the heading
  comes right after the row-start line of REQ-1: when capturing has stopped, at the end of
  that page, the row is in progress and the output is empty. On the page with the untitled
  row REQ-2 right before the heading, the scan ends with that line held alone, and the
  result has the row of REQ-1 only: no row is put in the output for REQ-2.\<close>

theorem c7_untitled_row_before_heading_counterexample:
  "for_pages init_state (take 1 reopened_pages) =
     Inr \<lparr>capturing = False, data = [], current_row = [''REQ-1 v1'', ''A'']\<rparr>
   \<and> for_pages init_state [Some untitled_before_heading_page] =
     Inr \<lparr>capturing = False, data = [[''REQ-1 v1'', ''A'']], current_row = [''REQ-2 v1'']\<rparr>
   \<and> scan [Some untitled_before_heading_page] = Inr [[''REQ-1 v1'', ''A'']]"
  by code_simp

subsection \<open>Stripping and joining\<close>

lemma is_space_blank: "is_space CHR '' ''"
  by (simp add: is_space_def code_def)

lemma strip_Nil: "strip [] = []"
  by (simp add: strip_def)

lemma strip_leading_space: "is_space c \<Longrightarrow> strip (c # x) = strip x"
  by (simp add: strip_def)

lemma strip_ends:
  assumes "strip x \<noteq> []"
  shows "\<not> is_space (hd (strip x)) \<and> \<not> is_space (last (strip x))"
proof -
  let ?y = "dropWhile is_space x"
  let ?z = "dropWhile is_space (rev ?y)"
  from assms have z: "?z \<noteq> []" by (simp add: strip_def)
  have y: "?y \<noteq> []"
  proof
    assume e: "?y = []"
    have "?z = []" unfolding e by simp
    with z show False by simp
  qed
  have "last (strip x) = hd ?z"
    using z by (simp add: strip_def last_rev)
  moreover have "\<not> is_space (hd ?z)"
    using z by (rule hd_dropWhile)
  moreover have "hd (strip x) = last ?z"
    using z by (simp add: strip_def hd_rev)
  moreover have "last ?z = last (rev ?y)"
    using z by (metis dropWhile_eq_Nil_conv last_appendR takeWhile_dropWhile_id)
  moreover have "last (rev ?y) = hd ?y"
    using y by (simp add: last_rev)
  moreover have "\<not> is_space (hd ?y)"
    using y by (rule hd_dropWhile)
  ultimately show ?thesis by simp
qed

lemma dropWhile_keeps:
  "xs \<noteq> [] \<Longrightarrow> \<not> P (hd xs) \<Longrightarrow> dropWhile P xs = xs"
  by (cases xs) simp_all

lemma strip_unchanged:
  assumes "x \<noteq> []" and "\<not> is_space (hd x)" and "\<not> is_space (last x)"
  shows "strip x = x"
proof -
  from assms(1,2) have "dropWhile is_space x = x"
    by (rule dropWhile_keeps)
  moreover from assms(1,3) have "dropWhile is_space (rev x) = rev x"
    by (intro dropWhile_keeps) (simp_all add: hd_rev)
  ultimately show ?thesis by (simp add: strip_def)
qed

lemma strip_strip: "strip (strip x) = strip x"
proof (cases "strip x = []")
  case True
  then show ?thesis by (simp add: strip_Nil)
next
  case False
  with strip_ends [OF False] show ?thesis by (simp add: strip_unchanged)
qed

lemma space_joined_Cons: "space_joined (x # ls) = x @ concat (map ((@) '' '') ls)"
  by (induction ls arbitrary: x) simp_all

lemma strip_blank_join:
  assumes "strip n = n" and "strip l = l" and "l \<noteq> []"
  shows "strip (strip (n @ '' '' @ l) @ t) = strip (n @ '' '' @ l @ t)"
proof (cases "n = []")
  case True
  from assms(2) have "strip ('' '' @ l) = l"
    by (simp add: strip_leading_space is_space_blank)
  with True show ?thesis
    by (simp add: strip_leading_space is_space_blank)
next
  case False
  with assms(1) strip_ends [of n] have "\<not> is_space (hd n)" by simp
  moreover from assms(2,3) strip_ends [of l] have "\<not> is_space (last l)" by simp
  ultimately have "strip (n @ '' '' @ l) = n @ '' '' @ l"
    using False assms(3) by (intro strip_unchanged) simp_all
  then show ?thesis by simp
qed

lemma foldl_strip_join:
  assumes "strip n = n" and "list_all (\<lambda>l. strip l = l \<and> l \<noteq> []) ls"
  shows "foldl (\<lambda>acc l. strip (acc @ '' '' @ l)) n ls = strip (space_joined (n # ls))"
  using assms
proof (induction ls arbitrary: n)
  case Nil
  then show ?case by simp
next
  case (Cons l ls)
  from Cons.prems have l: "strip l = l" "l \<noteq> []" and ls: "list_all (\<lambda>l. strip l = l \<and> l \<noteq> []) ls"
    by simp_all
  have "foldl (\<lambda>acc l. strip (acc @ '' '' @ l)) (strip (n @ '' '' @ l)) ls =
      strip (space_joined (strip (n @ '' '' @ l) # ls))"
    using ls by (intro Cons.IH) (simp_all add: strip_strip)
  also have "\<dots> = strip (strip (n @ '' '' @ l) @ concat (map ((@) '' '') ls))"
    by (simp only: space_joined_Cons)
  also have "\<dots> = strip (n @ '' '' @ l @ concat (map ((@) '' '') ls))"
    using Cons.prems(1) l by (rule strip_blank_join)
  also have "\<dots> = strip (space_joined (n # l # ls))"
    by (simp add: space_joined_Cons)
  finally show ?case by simp
qed

lemma for_lines_continuations:
  assumes "capturing s" and "current_row s = [i, n]"
    and "list_all (\<lambda>raw. strip raw \<noteq> [] \<and> \<not> is_boundary (strip raw) \<and> \<not> is_row_start (strip raw)) conts"
  shows "for_lines s conts =
    Inr (s\<lparr>current_row := [i, foldl (\<lambda>acc l. strip (acc @ '' '' @ l)) n (map strip conts)]\<rparr>)"
  using assms
proof (induction conts arbitrary: s n)
  case Nil
  then show ?case by simp
next
  case (Cons raw conts)
  let ?t = "s\<lparr>current_row := [i, strip (n @ '' '' @ strip raw)]\<rparr>"
  from Cons.prems have "loop_body s raw = Next ?t"
    by (simp add: loop_body_continuation)
  moreover have "for_lines ?t conts =
      Inr (?t\<lparr>current_row := [i, foldl (\<lambda>acc l. strip (acc @ '' '' @ l))
        (strip (n @ '' '' @ strip raw)) (map strip conts)]\<rparr>)"
    using Cons.prems by (intro Cons.IH) simp_all
  ultimately show ?case by simp
qed

subsection \<open>Continuation lines\<close>

text \<open>
  Let a row-start line that the strict pattern accepts be scanned while capturing, and let
  it be followed by one or more lines that are not empty and are neither row-start nor
  boundary lines. Then the name of the row in progress is the trimmed space-joined
  concatenation of the title and of those lines (each stripped, as the loop strips every
  line), in their order. The row is put in the output with that name at the end of the page,
  when the page ends after those lines, and by the next row-start line otherwise.
\<close>

lemma accepted_row_continuations_joined:
  assumes "capturing s"
    and "strip r \<noteq> []"
    and "\<not> is_boundary (strip r)"
    and "is_row_start (strip r)"
    and "re_match False strict_re (strip r) = Some m"
    and "conts \<noteq> []"
    and "list_all (\<lambda>raw. strip raw \<noteq> [] \<and> \<not> is_boundary (strip raw) \<and> \<not> is_row_start (strip raw)) conts"
  shows "for_lines s (r # conts) =
           Inr ((save_partial s)\<lparr>current_row :=
                  [row_id m, strip (space_joined (row_name m # map strip conts))]\<rparr>)
       \<and> (split newline text = r # conts \<longrightarrow>
            process_page s (Some text) =
              Inr ((save_partial s)\<lparr>data := data (save_partial s) @
                     [[row_id m, strip (space_joined (row_name m # map strip conts))]],
                   current_row := []\<rparr>))
       \<and> (strip next \<noteq> [] \<and> \<not> is_boundary (strip next) \<and> is_row_start (strip next) \<longrightarrow>
            for_lines s (r # conts @ [next]) =
              Inr (start_row ((save_partial s)\<lparr>data := data (save_partial s) @
                     [[row_id m, strip (space_joined (row_name m # map strip conts))]],
                   current_row := []\<rparr>) (strip next)))"
proof -
  let ?name = "strip (space_joined (row_name m # map strip conts))"
  let ?o = "(save_partial s)\<lparr>current_row := [row_id m, row_name m]\<rparr>"
  let ?p = "(save_partial s)\<lparr>current_row := [row_id m, ?name]\<rparr>"
  let ?c = "(save_partial s)\<lparr>data := data (save_partial s) @ [[row_id m, ?name]], current_row := []\<rparr>"
  have started: "loop_body s r = Next ?o"
    using loop_body_row_start [OF assms(1-4)] assms(5) by (simp add: start_row_def)
  have cap: "capturing ?o"
    using assms(1) by (simp add: save_partial_capturing)
  have stripped: "list_all (\<lambda>l. strip l = l \<and> l \<noteq> []) (map strip conts)"
    using assms(7) by (induction conts) (simp_all add: strip_strip)
  have "foldl (\<lambda>acc l. strip (acc @ '' '' @ l)) (row_name m) (map strip conts) = ?name"
    using stripped by (intro foldl_strip_join) (simp add: row_name_def strip_strip)
  with for_lines_continuations [OF cap _ assms(7), of "row_id m" "row_name m"]
  have conts: "for_lines ?o conts = Inr ?p"
    by simp
  with started have lines: "for_lines s (r # conts) = Inr ?p"
    by simp
  have capp: "capturing ?p"
    using assms(1) by (simp add: save_partial_capturing)
  have flush: "page_end ?p = ?c"
    using capp by (simp add: page_end_def)
  have page: "process_page s (Some text) = Inr ?c" if "split newline text = r # conts"
  proof -
    from that assms(6) have "text \<noteq> []" by (cases conts) auto
    with that lines flush show ?thesis by (simp add: process_page_def)
  qed
  have saved: "save_partial ?p = ?c"
    by (simp add: save_partial_def)
  have nxt: "for_lines s (r # conts @ [next]) = Inr (start_row ?c (strip next))"
    if "strip next \<noteq> []" "\<not> is_boundary (strip next)" "is_row_start (strip next)"
  proof -
    have "for_lines s ((r # conts) @ [next]) = for_lines ?p [next]"
      using lines capp by (rule for_lines_still_capturing)
    also have "\<dots> = Inr (start_row ?c (strip next))"
      using loop_body_row_start [OF capp that] saved by simp
    finally show ?thesis by simp
  qed
  from lines page nxt show ?thesis by blast
qed

lemma accepted_row_continuations_joined_example:
  "process_page \<lparr>capturing = True, data = [], current_row = []\<rparr>
       (Some (unlines [''REQ-100 v1 Engine shall report speed'', '' to the dashboard '',
          ''module (v2) 14''])) =
     Inr \<lparr>capturing = True,
          data = [[''REQ-100 v1'', ''Engine shall report speed to the dashboard module (v2) 14'']],
          current_row = []\<rparr>"
proof -
  let ?s = "\<lparr>capturing = True, data = [], current_row = []\<rparr>"
  let ?r = "''REQ-100 v1 Engine shall report speed''"
  let ?conts = "['' to the dashboard '', ''module (v2) 14'']"
  let ?m = "[(3, ''Engine shall report speed''), (2, ''1''), (1, ''REQ-100'')]"
  let ?text = "unlines [''REQ-100 v1 Engine shall report speed'', '' to the dashboard '',
          ''module (v2) 14'']"
  have cap: "capturing ?s" by simp
  have r1: "strip ?r \<noteq> []" by code_simp
  have r2: "\<not> is_boundary (strip ?r)" by code_simp
  have r3: "is_row_start (strip ?r)" by code_simp
  have r4: "re_match False strict_re (strip ?r) = Some ?m" by code_simp
  have c1: "?conts \<noteq> []" by simp
  have c2: "list_all (\<lambda>raw. strip raw \<noteq> [] \<and> \<not> is_boundary (strip raw) \<and> \<not> is_row_start (strip raw)) ?conts"
    by code_simp
  have lines: "split newline ?text = ?r # ?conts" by code_simp
  have st: "(save_partial ?s)\<lparr>data := data (save_partial ?s) @
                     [[row_id ?m, strip (space_joined (row_name ?m # map strip ?conts))]],
                   current_row := []\<rparr> =
      \<lparr>capturing = True,
          data = [[''REQ-100 v1'', ''Engine shall report speed to the dashboard module (v2) 14'']],
          current_row = []\<rparr>"
    by code_simp
  note w = accepted_row_continuations_joined [OF cap r1 r2 r3 r4 c1 c2, of ?text]
  show ?thesis using w lines unfolding st by blast
qed

text \<open>
  Claim C5 at a failing input. The line \<^verbatim>\<open>REQ-2 v1\<close> is a row-start line, scanned while
  capturing, and the line \<^verbatim>\<open>continuation text\<close> after it is not empty and is neither a
  row-start nor a boundary line. The strict pattern rejects the row-start line, so the row
  in progress is the one-element list of that line, and the assignment to its second
  element for the continuation line raises \<^verbatim>\<open>IndexError\<close>: no row with a joined name is put
  in the output, and the function returns \<^verbatim>\<open>None\<close>.
\<close>

theorem c5_continuation_after_untitled_row_raises:
  "strip ''REQ-2 v1'' \<noteq> [] \<and> is_row_start (strip ''REQ-2 v1'')
   \<and> \<not> is_boundary (strip ''REQ-2 v1'')
   \<and> strip ''continuation text'' \<noteq> [] \<and> \<not> is_row_start (strip ''continuation text'')
   \<and> \<not> is_boundary (strip ''continuation text'')
   \<and> for_lines \<lparr>capturing = True, data = [], current_row = []\<rparr>
        [''REQ-2 v1'', ''continuation text''] = Inl IndexError
   \<and> scan [Some untitled_only_row_page] = Inl IndexError
   \<and> extract_active_requirements_table (Document [Some untitled_only_row_page]) = None"
  by code_simp

section \<open>The patterns on well-formed lines\<close>

subsection \<open>Character classes\<close>

lemma digit_not_space: "is_digit c \<Longrightarrow> \<not> is_space c"
  by (auto simp: is_digit_def is_space_def)

lemma word_not_space: "is_word c \<Longrightarrow> \<not> is_space c"
  by (auto simp: is_word_def is_digit_def is_upper_def is_lower_def is_space_def)

lemma digit_is_word: "is_digit c \<Longrightarrow> is_word c"
  by (simp add: is_word_def)

lemma code_inject: "code c = code d \<Longrightarrow> c = d"
  by (simp add: code_def)

lemma paren_classes:
  "\<not> is_space CHR ''(''" "\<not> is_word CHR ''(''" "\<not> is_digit CHR ''(''"
  "\<not> is_space CHR '')''" "\<not> is_word CHR '')''"
  "\<not> is_space CHR ''v''" "\<not> is_space CHR ''-''" "\<not> is_space CHR ''R''"
  "\<not> is_digit CHR '' ''" "\<not> is_word CHR '' ''" "is_space CHR '' ''"
  by (simp_all add: is_space_def is_word_def is_digit_def is_upper_def is_lower_def code_def)

subsection \<open>The results of the matcher\<close>

lemma takeWhile_none: "ys = [] \<or> \<not> P (hd ys) \<Longrightarrow> takeWhile P ys = []"
  by (cases ys) auto

lemma takeWhile_stops:
  "list_all P xs \<Longrightarrow> ys = [] \<or> \<not> P (hd ys) \<Longrightarrow> takeWhile P (xs @ ys) = xs"
  by (induction xs) (simp_all add: takeWhile_none)

lemma rep_counts_greedy_head:
  "0 < n \<Longrightarrow> \<exists>ks. rep_counts True 1 None n = n # ks"
  by (cases n) (simp_all add: rep_counts_def)

lemma plus_head:
  assumes "xs \<noteq> []" and "list_all (cc_match ic k) xs" and "ys = [] \<or> \<not> cc_match ic k (hd ys)"
  shows "\<exists>zs. rmatch ic (Rep True 1 None k) (b, xs @ ys, g) = (rev xs @ b, ys, g) # zs"
proof -
  have avail: "takeWhile (cc_match ic k) (xs @ ys) = xs"
    using assms(2,3) by (rule takeWhile_stops)
  from assms(1) obtain ks where "rep_counts True 1 None (length xs) = length xs # ks"
    using rep_counts_greedy_head [of "length xs"] by auto
  then show ?thesis by (simp add: avail)
qed

lemma rmatch_suffix:
  "(b', r', g') \<in> set (rmatch ic p (b, r, g)) \<Longrightarrow> suffix r' r"
proof (induction p arbitrary: b r g b' r' g')
  case (Seq p q)
  then obtain b1 r1 g1 where "(b1, r1, g1) \<in> set (rmatch ic p (b, r, g))"
    and "(b', r', g') \<in> set (rmatch ic q (b1, r1, g1))"
    by auto
  with Seq.IH show ?case by (blast intro: suffix_order.trans)
next
  case (Rep greedy lo hi k)
  then show ?case by (auto simp: suffix_drop)
next
  case (Atom k)
  then show ?case by (auto split: list.splits if_splits simp: suffix_Cons)
qed (auto split: if_splits)

lemma rmatch_plain:
  "plain p \<Longrightarrow> rmatch ic p (b, r, g) = map (\<lambda>(b0, r0, g0). (b0 @ b, r0, g)) (rmatch ic p ([], r, g'))"
proof (induction p arbitrary: b r g g')
  case (Seq p q)
  have p: "rmatch ic p (b, r, g) = map (\<lambda>(b0, r0, g0). (b0 @ b, r0, g)) (rmatch ic p ([], r, g'))"
    using Seq by simp
  have q: "rmatch ic q (fst x @ b, fst (snd x), g) =
      map (\<lambda>a. (fst a @ b, fst (snd a), g)) (rmatch ic q x)" for x
  proof -
    obtain b0 r0 g0 where x: "x = (b0, r0, g0)" by (cases x) auto
    have "rmatch ic q (b0 @ b, r0, g) =
        map (\<lambda>(b1, r1, g1). (b1 @ b0 @ b, r1, g)) (rmatch ic q ([], r0, g'))"
      using Seq by simp
    moreover have "rmatch ic q (b0, r0, g0) =
        map (\<lambda>(b1, r1, g1). (b1 @ b0, r1, g0)) (rmatch ic q ([], r0, g'))"
      using Seq by simp
    ultimately show ?thesis by (simp add: x case_prod_unfold comp_def)
  qed
  show ?case
    by (simp add: p q map_concat comp_def case_prod_unfold)
next
  case (Opt p)
  then have "rmatch ic p (b, r, g) = map (\<lambda>(b0, r0, g0). (b0 @ b, r0, g)) (rmatch ic p ([], r, g'))"
    by simp
  then show ?case by simp
next
  case (Atom k)
  then show ?case by (simp split: list.splits)
qed simp_all

subsection \<open>The first match\<close>

lemma re_match_first:
  "re_match ic p s = map_option (\<lambda>(b, r, g). g) (first_match ic p ([], s, []))"
  by (simp add: re_match_def first_match_def split: list.splits)

lemma first_bol: "first_match ic Bol ([], r, g) = Some ([], r, g)"
  by (simp add: first_match_def)

lemma first_atom:
  "cc_match ic k c \<Longrightarrow> first_match ic (Atom k) (b, c # r, g) = Some (c # b, r, g)"
  by (simp add: first_match_def)

lemma first_seq:
  "first_match ic p s = Some x \<Longrightarrow> first_match ic q x = Some y \<Longrightarrow>
   first_match ic (Seq p q) s = Some y"
  by (auto simp: first_match_def split: list.splits)

lemma first_plus:
  assumes "xs \<noteq> []" and "list_all (cc_match ic k) xs" and "ys = [] \<or> \<not> cc_match ic k (hd ys)"
  shows "first_match ic (Rep True 1 None k) (b, xs @ ys, g) = Some (rev xs @ b, ys, g)"
  using plus_head [OF assms, of b g] by (auto simp: first_match_def)

lemma first_group:
  "first_match ic p (b, r, g) = Some (b', r', g') \<Longrightarrow>
   first_match ic (Group n p) (b, r, g) = Some (b', r', (n, take (length r - length r') r) # g')"
  by (auto simp: first_match_def split: list.splits)

subsection \<open>What the annotation pattern matches\<close>

lemma plain_annotation: "plain annotation_re"
  by (simp add: annotation_re_def)

lemma take_within_takeWhile:
  "n \<le> length (takeWhile P r) \<Longrightarrow> list_all P (take n r)"
proof -
  assume n: "n \<le> length (takeWhile P r)"
  have "take n r = take n (takeWhile P r @ dropWhile P r)" by simp
  also have "\<dots> = take n (takeWhile P r)" using n by (simp del: takeWhile_dropWhile_id)
  finally have "set (take n r) \<subseteq> set (takeWhile P r)" by (simp add: set_take_subset)
  then show ?thesis by (auto simp: list_all_iff dest: set_takeWhileD)
qed

lemma rep_counts_bounds: "n \<in> set (rep_counts greedy lo None avail) \<Longrightarrow> lo \<le> n \<and> n \<le> avail"
  by (auto simp: rep_counts_def Let_def simp del: upt_Suc split: if_splits)

lemma cc_match_class:
  "cc_match ic Space = is_space" "cc_match ic Word = is_word" "cc_match ic Digit = is_digit"
  by (rule ext, simp)+

lemma rep_elim:
  assumes "(b', r', g') \<in> set (rmatch ic (Rep greedy lo None k) (b, r, g))"
  shows "\<exists>xs. r = xs @ r' \<and> list_all (cc_match ic k) xs \<and> lo \<le> length xs"
proof -
  from assms obtain n where n: "n \<in> set (rep_counts greedy lo None (length (takeWhile (cc_match ic k) r)))"
    and r': "r' = drop n r"
    by auto
  from rep_counts_bounds [OF n] have lo: "lo \<le> n" and up: "n \<le> length (takeWhile (cc_match ic k) r)"
    by simp_all
  from up have "n \<le> length r"
    using length_takeWhile_le [of "cc_match ic k" r] by simp
  with lo have "lo \<le> length (take n r)" by simp
  moreover have "r = take n r @ r'" by (simp add: r')
  moreover have "list_all (cc_match ic k) (take n r)" using up by (rule take_within_takeWhile)
  ultimately show ?thesis by blast
qed

lemma atom_elim:
  "(b', r', g') \<in> set (rmatch ic (Atom k) (b, r, g)) \<Longrightarrow> \<exists>c. r = c # r' \<and> cc_match ic k c"
  by (auto split: list.splits if_splits)

lemma seq_elim:
  "x \<in> set (rmatch ic (Seq p q) s) \<Longrightarrow>
   \<exists>b1 r1 g1. (b1, r1, g1) \<in> set (rmatch ic p s) \<and> x \<in> set (rmatch ic q (b1, r1, g1))"
  by auto

lemma annotation_shape:
  assumes "(b', r', g') \<in> set (rmatch False annotation_re (b, r, g))"
  shows "\<exists>ws u. r = ws @ CHR ''('' # u @ r' \<and> ws \<noteq> [] \<and> list_all is_space ws
            \<and> CHR ''('' \<notin> set u \<and> u \<noteq> [] \<and> is_digit (last u)"
proof -
  from assms [unfolded annotation_re_def] obtain b1 r1 g1
    where s1: "(b1, r1, g1) \<in> set (rmatch False (plus Space) (b, r, g))"
      and t1: "(b', r', g') \<in> set (rmatch False (Seq (Atom (Lit CHR ''('')) (Seq (plus Word)
          (Seq (Atom (Lit CHR '')'')) (Seq (Rep True 0 None Space) (plus Digit))))) (b1, r1, g1))"
    by (blast dest: seq_elim)
  from t1 obtain b2 r2 g2
    where s2: "(b2, r2, g2) \<in> set (rmatch False (Atom (Lit CHR ''('')) (b1, r1, g1))"
      and t2: "(b', r', g') \<in> set (rmatch False (Seq (plus Word)
          (Seq (Atom (Lit CHR '')'')) (Seq (Rep True 0 None Space) (plus Digit)))) (b2, r2, g2))"
    by (blast dest: seq_elim)
  from t2 obtain b3 r3 g3
    where s3: "(b3, r3, g3) \<in> set (rmatch False (plus Word) (b2, r2, g2))"
      and t3: "(b', r', g') \<in> set (rmatch False
          (Seq (Atom (Lit CHR '')'')) (Seq (Rep True 0 None Space) (plus Digit))) (b3, r3, g3))"
    by (blast dest: seq_elim)
  from t3 obtain b4 r4 g4
    where s4: "(b4, r4, g4) \<in> set (rmatch False (Atom (Lit CHR '')'')) (b3, r3, g3))"
      and t4: "(b', r', g') \<in> set (rmatch False (Seq (Rep True 0 None Space) (plus Digit)) (b4, r4, g4))"
    by (blast dest: seq_elim)
  from t4 obtain b5 r5 g5
    where s5: "(b5, r5, g5) \<in> set (rmatch False (Rep True 0 None Space) (b4, r4, g4))"
      and s6: "(b', r', g') \<in> set (rmatch False (plus Digit) (b5, r5, g5))"
    by (blast dest: seq_elim)
  from rep_elim [OF s1] obtain ws where ws: "r = ws @ r1" "list_all is_space ws" "1 \<le> length ws"
    by (auto simp: cc_match_class)
  from atom_elim [OF s2] have r1: "r1 = CHR ''('' # r2"
    by auto
  from rep_elim [OF s3] obtain w where w: "r2 = w @ r3" "list_all is_word w"
    by (auto simp: cc_match_class)
  from atom_elim [OF s4] have r3: "r3 = CHR '')'' # r4"
    by auto
  from rep_elim [OF s5] obtain vs where vs: "r4 = vs @ r5" "list_all is_space vs"
    by (auto simp: cc_match_class)
  from rep_elim [OF s6] obtain ds where ds: "r5 = ds @ r'" "list_all is_digit ds" "1 \<le> length ds"
    by (auto simp: cc_match_class)
  let ?u = "w @ CHR '')'' # vs @ ds"
  have "r = ws @ CHR ''('' # ?u @ r'"
    by (simp add: ws r1 w r3 vs ds)
  moreover have "ws \<noteq> []" using ws(3) by auto
  moreover have "CHR ''('' \<notin> set ?u"
    using w(2) vs(2) ds(2) paren_classes by (auto simp: list_all_iff)
  moreover have "is_digit (last ?u)"
    using ds(2,3) by (cases ds rule: rev_cases) (auto simp: list_all_iff)
  ultimately show ?thesis using ws(2) by blast
qed

lemma is_annotationD:
  "is_annotation a \<Longrightarrow> \<exists>b' g'. (b', [], g') \<in> set (rmatch False annotation_re ([], a, []))"
  by (auto simp: is_annotation_def list_ex_iff)

lemma is_annotationI:
  "(b', [], g') \<in> set (rmatch False annotation_re ([], a, [])) \<Longrightarrow> is_annotation a"
  by (force simp: is_annotation_def list_ex_iff)

lemma is_annotation_last: "is_annotation a \<Longrightarrow> a \<noteq> [] \<and> is_digit (last a)"
  by (auto dest!: is_annotationD annotation_shape)

lemma last_occurrence_unique:
  "xs @ c # ys = xs' @ c # ys' \<Longrightarrow> c \<notin> set ys \<Longrightarrow> c \<notin> set ys' \<Longrightarrow> xs = xs'"
  by (auto simp: append_eq_append_conv2 append_eq_Cons_conv Cons_eq_append_conv)

lemma not_annotation_after:
  assumes "is_annotation annot" and "d \<noteq> []" and "\<not> is_space (last d)"
  shows "\<not> is_annotation (d @ annot)"
proof
  assume "is_annotation (d @ annot)"
  then obtain ws u where 1: "d @ annot = ws @ CHR ''('' # u" "list_all is_space ws" "CHR ''('' \<notin> set u"
    by (auto dest!: is_annotationD annotation_shape)
  from assms(1) obtain ws0 u0 where 2: "annot = ws0 @ CHR ''('' # u0" "CHR ''('' \<notin> set u0"
    by (auto dest!: is_annotationD annotation_shape)
  from 1(1) 2(1) have "(d @ ws0) @ CHR ''('' # u0 = ws @ CHR ''('' # u" by simp
  then have "d @ ws0 = ws" using 2(2) 1(3) by (rule last_occurrence_unique)
  with 1(2) have "list_all is_space d" by auto
  with assms(2,3) show False by (auto simp: list_all_iff)
qed

subsection \<open>The end of the strict pattern\<close>

lemma eol_filter:
  "concat (map (rmatch ic Eol) xs) = filter (\<lambda>(b, r, g). r = [] \<or> r = [newline]) xs"
  by (induction xs) (auto split: if_splits)

lemma annotation_results:
  "rmatch False annotation_re (b, r, g) =
     map (\<lambda>(b0, r0, g0). (b0 @ b, r0, g)) (rmatch False annotation_re ([], r, []))"
  using plain_annotation by (rule rmatch_plain)

lemma opt_annotation_eol:
  "rmatch False (Seq (Opt annotation_re) Eol) (b, r, g) =
     filter (\<lambda>(b', r', g'). r' = [] \<or> r' = [newline])
       (map (\<lambda>(b0, r0, g0). (b0 @ b, r0, g)) (rmatch False annotation_re ([], r, [])) @ [(b, r, g)])"
proof -
  have "rmatch False (Seq (Opt annotation_re) Eol) (b, r, g) =
      concat (map (rmatch False Eol) (rmatch False annotation_re (b, r, g) @ [(b, r, g)]))"
    by (simp only: rmatch.simps)
  also have "\<dots> = filter (\<lambda>(b', r', g'). r' = [] \<or> r' = [newline])
      (rmatch False annotation_re (b, r, g) @ [(b, r, g)])"
    by (rule eol_filter)
  finally show ?thesis
    by (simp only: annotation_results [of b r g])
qed

lemma opt_annotation_eol_none:
  assumes "r \<noteq> []" and "newline \<notin> set r" and "\<not> is_annotation r"
  shows "rmatch False (Seq (Opt annotation_re) Eol) (b, r, g) = []"
proof -
  have "r0 \<noteq> [] \<and> r0 \<noteq> [newline]"
    if "(b0, r0, g0) \<in> set (rmatch False annotation_re ([], r, []))" for b0 r0 g0
  proof -
    from that assms(3) have "r0 \<noteq> []" by (auto dest: is_annotationI)
    moreover from that have "suffix r0 r" by (rule rmatch_suffix)
    with assms(2) have "r0 \<noteq> [newline]" by (auto simp: suffix_def)
    ultimately show ?thesis by simp
  qed
  moreover from assms(1,2) have "r \<noteq> [newline]" by auto
  ultimately have "\<forall>x\<in>set (map (\<lambda>(b0, r0, g0). (b0 @ b, r0, g))
      (rmatch False annotation_re ([], r, [])) @ [(b, r, g)]).
      \<not> (case x of (b', r', g') \<Rightarrow> r' = [] \<or> r' = [newline])"
    using assms(1) by fastforce
  then show ?thesis
    by (simp only: opt_annotation_eol filter_empty_conv) 
qed

lemma filter_head_third:
  assumes "x \<in> set xs" and "P x" and "\<forall>y\<in>set xs. snd (snd y) = g"
  shows "\<exists>b r zs. filter P xs = (b, r, g) # zs"
proof -
  from assms(1,2) have "filter P xs \<noteq> []" by (auto simp: filter_empty_conv)
  then obtain y zs where f: "filter P xs = y # zs" by (cases "filter P xs") auto
  then have "y \<in> set (filter P xs)" by simp
  then have "y \<in> set xs" by simp
  with assms(3) have "snd (snd y) = g" by blast
  with f show ?thesis by (cases y) auto
qed

lemma opt_annotation_eol_some:
  assumes "r = [] \<or> is_annotation r"
  shows "\<exists>b' r'. first_match False (Seq (Opt annotation_re) Eol) (b, r, g) = Some (b', r', g)"
proof -
  let ?xs = "map (\<lambda>(b0, r0, g0). (b0 @ b, r0, g)) (rmatch False annotation_re ([], r, [])) @ [(b, r, g)]"
  let ?P = "\<lambda>(b', r', g'). r' = [] \<or> r' = [newline :: char]"
  have thirds: "\<forall>y\<in>set ?xs. snd (snd y) = g" by auto
  from assms obtain x where mem: "x \<in> set ?xs" and px: "?P x"
  proof
    assume "r = []"
    then have "(b, r, g) \<in> set ?xs" "?P (b, r, g)" by simp_all
    then show ?thesis by (rule that)
  next
    assume "is_annotation r"
    then obtain b0 g0 where "(b0, [], g0) \<in> set (rmatch False annotation_re ([], r, []))"
      by (auto dest: is_annotationD)
    then have "(b0 @ b, [], g) \<in> set ?xs" by force
    moreover have "?P (b0 @ b, [], g)" by simp
    ultimately show ?thesis by (rule that)
  qed
  from mem px thirds have "\<exists>b' r' zs. filter ?P ?xs = (b', r', g) # zs"
    by (rule filter_head_third)
  then obtain b' r' zs where "filter ?P ?xs = (b', r', g) # zs"
    by blast
  then have "rmatch False (Seq (Opt annotation_re) Eol) (b, r, g) = (b', r', g) # zs"
    by (simp only: opt_annotation_eol)
  then have "first_match False (Seq (Opt annotation_re) Eol) (b, r, g) = Some (b', r', g)"
    by (simp only: first_match_def list.case)
  then show ?thesis by blast
qed

lemma concat_skip: "\<forall>n\<in>set ns. F n = [] \<Longrightarrow> concat (map F (ns @ ms)) = concat (map F ms)"
  by (induction ns) simp_all

lemma lazy_dot_results:
  "rmatch False (Group 3 (Rep False 1 None Dot)) (b, r, g) =
     map (\<lambda>n. (rev (take n r) @ b, drop n r, (3, take n r) # g))
       [1..<Suc (length (takeWhile (\<lambda>c. c \<noteq> newline) r))]"
proof -
  have dot: "cc_match False Dot = (\<lambda>c. c \<noteq> newline)" by (rule ext) simp
  have "take (length r - (length r - n)) r = take n r"
    if "n \<in> set [1..<Suc (length (takeWhile (\<lambda>c. c \<noteq> newline) r))]" for n
  proof -
    from that have "n \<le> length r"
      using length_takeWhile_le [of "\<lambda>c. c \<noteq> newline" r] by auto
    then show ?thesis by simp
  qed
  then show ?thesis
    by (simp add: rep_counts_def dot del: upt_Suc)
qed

lemma title_tail_match:
  assumes "title \<noteq> []" and "\<not> is_space (last title)" and "newline \<notin> set title"
    and "annot = [] \<and> \<not> ends_with_annotation title \<or> is_annotation annot \<and> newline \<notin> set annot"
  shows "\<exists>b' r'. first_match False (Seq (Group 3 (Rep False 1 None Dot)) (Seq (Opt annotation_re) Eol))
           (b, title @ annot, g) = Some (b', r', (3, title) # g)"
proof -
  let ?r = "title @ annot"
  let ?L = "length title"
  let ?avail = "length (takeWhile (\<lambda>c. c \<noteq> newline) ?r)"
  let ?E = "Seq (Opt annotation_re) Eol"
  let ?F = "\<lambda>n. rmatch False ?E (rev (take n ?r) @ b, drop n ?r, (3, take n ?r) # g)"
  have "takeWhile (\<lambda>c. c \<noteq> newline) ?r = title @ takeWhile (\<lambda>c. c \<noteq> newline) annot"
    using assms(3) by (intro takeWhile_append2) auto
  then have avail: "?L \<le> ?avail" by simp
  from assms(1) have pos: "1 \<le> ?L" by (cases title) simp_all
  have early: "?F n = []" if "n \<in> set [1..<?L]" for n
  proof -
    from that have n: "1 \<le> n" "n < ?L" by simp_all
    let ?d = "drop n title"
    from n have d: "?d \<noteq> []" "last ?d = last title" by simp_all
    have rest: "drop n ?r = ?d @ annot" using n by simp
    have "\<not> is_annotation (?d @ annot)"
    proof (cases "annot = []")
      case True
      with assms(4) have "\<not> ends_with_annotation title"
        using is_annotation_last by auto
      with that True show ?thesis by (auto simp: ends_with_annotation_def list_ex_iff)
    next
      case False
      with assms(4) have "is_annotation annot" by simp
      then show ?thesis using d(1) assms(2) d(2) by (intro not_annotation_after) simp_all
    qed
    moreover have "newline \<notin> set (?d @ annot)"
      using assms(3,4) by (auto dest: in_set_dropD)
    moreover have "?d @ annot \<noteq> []" using d(1) by simp
    ultimately show ?thesis unfolding rest by (intro opt_annotation_eol_none)
  qed
  have "annot = [] \<or> is_annotation annot" using assms(4) by auto
  from opt_annotation_eol_some [OF this]
  obtain b' r' where "first_match False ?E (rev title @ b, annot, (3, title) # g) =
      Some (b', r', (3, title) # g)"
    by blast
  then have at: "\<exists>zs. ?F ?L = (b', r', (3, title) # g) # zs"
    by (auto simp: first_match_def split: list.splits)
  have "[1..<Suc ?avail] = [1..<?L + (Suc ?avail - ?L)]"
    using avail by simp
  also have "\<dots> = [1..<?L] @ [?L..<?L + (Suc ?avail - ?L)]"
    using pos by (rule upt_add_eq_append)
  also have "[?L..<?L + (Suc ?avail - ?L)] = [?L..<Suc ?avail]"
    using avail by simp
  also have "\<dots> = ?L # [Suc ?L..<Suc ?avail]"
    using avail by (intro upt_conv_Cons) simp
  finally have "[1..<Suc ?avail] = [1..<?L] @ ?L # [Suc ?L..<Suc ?avail]" .
  moreover have "concat (map ?F ([1..<?L] @ ?L # [Suc ?L..<Suc ?avail])) =
      concat (map ?F (?L # [Suc ?L..<Suc ?avail]))"
    using early by (intro concat_skip ballI)
  ultimately have "concat (map ?F [1..<Suc ?avail]) = concat (map ?F (?L # [Suc ?L..<Suc ?avail]))"
    by (simp only:)
  also from at obtain zs where "?F ?L = (b', r', (3, title) # g) # zs"
    by blast
  then have "concat (map ?F (?L # [Suc ?L..<Suc ?avail])) =
      (b', r', (3, title) # g) # (zs @ concat (map ?F [Suc ?L..<Suc ?avail]))"
    by (simp only: list.map concat.simps append_Cons)
  finally have found: "concat (map ?F [1..<Suc ?avail]) =
      (b', r', (3, title) # g) # (zs @ concat (map ?F [Suc ?L..<Suc ?avail]))" .
  have "rmatch False (Seq (Group 3 (Rep False 1 None Dot)) ?E) (b, ?r, g) =
      concat (map (rmatch False ?E) (rmatch False (Group 3 (Rep False 1 None Dot)) (b, ?r, g)))"
    by (simp only: rmatch.simps)
  also have "\<dots> = concat (map ?F [1..<Suc ?avail])"
    by (simp only: lazy_dot_results map_map comp_def)
  finally have "rmatch False (Seq (Group 3 (Rep False 1 None Dot)) ?E) (b, ?r, g) =
      (b', r', (3, title) # g) # (zs @ concat (map ?F [Suc ?L..<Suc ?avail]))"
    using found by (simp only:)
  then have "first_match False (Seq (Group 3 (Rep False 1 None Dot)) ?E) (b, ?r, g) =
      Some (b', r', (3, title) # g)"
    by (simp only: first_match_def list.case)
  then show ?thesis by blast
qed

subsection \<open>A well-formed row-start line\<close>

lemma idchar_class:
  "cc_match False (Union Word (Lit CHR ''-'')) = (\<lambda>c. is_word c \<or> c = CHR ''-'')"
  by (rule ext) simp

lemma first_lits_req:
  "first_match False (lits ''REQ-'') (b, CHR ''R'' # CHR ''E'' # CHR ''Q'' # CHR ''-'' # r, g) =
     Some (CHR ''-'' # CHR ''Q'' # CHR ''E'' # CHR ''R'' # b, r, g)"
  by (simp add: first_match_def)

lemma take_consumed: "take (length (xs @ ys) - length ys) (xs @ ys) = xs"
  by simp

lemma strict_first:
  assumes "ident \<noteq> []" and "list_all (\<lambda>c. is_word c \<or> c = CHR ''-'') ident"
    and "num \<noteq> []" and "list_all is_digit num"
    and "title \<noteq> []" and "strip title = title" and "newline \<notin> set title"
    and "annot = [] \<and> \<not> ends_with_annotation title \<or> is_annotation annot \<and> newline \<notin> set annot"
  shows "\<exists>b r. first_match False strict_re
           ([], ''REQ-'' @ ident @ '' v'' @ num @ '' '' @ title @ annot, []) =
         Some (b, r, [(3, title), (2, num), (1, ''REQ-'' @ ident)])"
proof -
  let ?t = "title @ annot"
  let ?r5 = "CHR '' '' # ?t"
  let ?r4 = "num @ ?r5"
  let ?r3 = "CHR ''v'' # ?r4"
  let ?r2 = "CHR '' '' # ?r3"
  let ?r1 = "ident @ ?r2"
  let ?line = "CHR ''R'' # CHR ''E'' # CHR ''Q'' # CHR ''-'' # ?r1"
  let ?b1 = "rev ident @ ''-QER''"
  let ?g1 = "[(1 :: nat, ''REQ-'' @ ident)]"
  let ?b2 = "CHR ''v'' # CHR '' '' # ?b1"
  let ?b3 = "rev num @ ?b2"
  let ?g2 = "(2 :: nat, num) # ?g1"
  let ?b4 = "CHR '' '' # ?b3"
  from assms(5,6) strip_ends [of title] have ends: "\<not> is_space (hd title)" "\<not> is_space (last title)"
    by simp_all
  have "first_match False (plus (Union Word (Lit CHR ''-''))) (''-QER'', ident @ ?r2, []) =
      Some (rev ident @ ''-QER'', ?r2, [])"
    using assms(1,2) paren_classes by (intro first_plus) (simp_all add: idchar_class)
  with first_lits_req [of "[]" ?r1 "[]"]
  have "first_match False (Seq (lits ''REQ-'') (plus (Union Word (Lit CHR ''-'')))) ([], ?line, []) =
      Some (?b1, ?r2, [])"
    by (rule first_seq)
  from first_group [OF this, of 1]
  have "first_match False (Group 1 (Seq (lits ''REQ-'') (plus (Union Word (Lit CHR ''-'')))))
      ([], ?line, []) = Some (?b1, ?r2, [(1, take (length ?line - length ?r2) ?line)])" .
  moreover have whole: "?line = (''REQ-'' @ ident) @ ?r2"
    by simp
  have "take (length ((''REQ-'' @ ident) @ ?r2) - length ?r2) ((''REQ-'' @ ident) @ ?r2) =
      ''REQ-'' @ ident"
    by (rule take_consumed)
  then have "take (length ?line - length ?r2) ?line = ''REQ-'' @ ident"
    by (simp only: whole [symmetric])
  ultimately have s1: "first_match False
      (Group 1 (Seq (lits ''REQ-'') (plus (Union Word (Lit CHR ''-''))))) ([], ?line, []) =
      Some (?b1, ?r2, ?g1)"
    by (simp only:)
  have "first_match False (plus Space) (?b1, '' '' @ ?r3, ?g1) = Some (rev '' '' @ ?b1, ?r3, ?g1)"
    using paren_classes by (intro first_plus) simp_all
  then have s2: "first_match False (plus Space) (?b1, ?r2, ?g1) = Some (CHR '' '' # ?b1, ?r3, ?g1)"
    by simp
  have s3: "first_match False (Atom (Lit CHR ''v'')) (CHR '' '' # ?b1, ?r3, ?g1) = Some (?b2, ?r4, ?g1)"
    by (intro first_atom) simp
  have "first_match False (plus Digit) (?b2, num @ ?r5, ?g1) = Some (?b3, ?r5, ?g1)"
    using assms(3,4) paren_classes by (intro first_plus) (simp_all add: cc_match_class)
  from first_group [OF this, of 2]
  have s4: "first_match False (Group 2 (plus Digit)) (?b2, ?r4, ?g1) = Some (?b3, ?r5, ?g2)"
    by simp
  have "first_match False (plus Space) (?b3, '' '' @ ?t, ?g2) = Some (rev '' '' @ ?b3, ?t, ?g2)"
    using paren_classes ends(1) assms(5) by (intro first_plus) simp_all
  then have s5: "first_match False (plus Space) (?b3, ?r5, ?g2) = Some (?b4, ?t, ?g2)"
    by simp
  from title_tail_match [OF assms(5) ends(2) assms(7,8), of ?b4 ?g2]
  obtain b r where s6: "first_match False
      (Seq (Group 3 (Rep False 1 None Dot)) (Seq (Opt annotation_re) Eol)) (?b4, ?t, ?g2) =
      Some (b, r, (3, title) # ?g2)"
    by blast
  note s5 = first_seq [OF s5 s6]
  note s4 = first_seq [OF s4 s5]
  note s3 = first_seq [OF s3 s4]
  note s2 = first_seq [OF s2 s3]
  note s1 = first_seq [OF s1 s2]
  note s0 = first_seq [OF first_bol s1]
  from s0 have "first_match False strict_re ([], ?line, []) = Some (b, r, (3, title) # ?g2)"
    by (simp only: strict_re_def)
  then show ?thesis by auto
qed

lemma row_start_first:
  assumes "ident \<noteq> []" and "list_all (\<lambda>c. is_word c \<or> c = CHR ''-'') ident"
    and "num \<noteq> []" and "list_all is_digit num"
  shows "is_row_start (''REQ-'' @ ident @ '' v'' @ num @ CHR '' '' # rest)"
proof -
  let ?r5 = "CHR '' '' # rest"
  let ?r4 = "num @ ?r5"
  let ?r3 = "CHR ''v'' # ?r4"
  let ?r2 = "CHR '' '' # ?r3"
  let ?r1 = "ident @ ?r2"
  let ?line = "CHR ''R'' # CHR ''E'' # CHR ''Q'' # CHR ''-'' # ?r1"
  let ?b1 = "rev ident @ ''-QER''"
  let ?b2 = "CHR ''v'' # CHR '' '' # ?b1"
  have s1: "first_match False (plus (Union Word (Lit CHR ''-''))) (''-QER'', ?r1, []) =
      Some (?b1, ?r2, [])"
    using assms(1,2) paren_classes by (intro first_plus) (simp_all add: idchar_class)
  have "first_match False (plus Space) (?b1, '' '' @ ?r3, []) = Some (rev '' '' @ ?b1, ?r3, [])"
    using paren_classes by (intro first_plus) simp_all
  then have s2: "first_match False (plus Space) (?b1, ?r2, []) = Some (CHR '' '' # ?b1, ?r3, [])"
    by simp
  have s3: "first_match False (Atom (Lit CHR ''v'')) (CHR '' '' # ?b1, ?r3, []) = Some (?b2, ?r4, [])"
    by (intro first_atom) simp
  have s4: "first_match False (plus Digit) (?b2, num @ ?r5, []) = Some (rev num @ ?b2, ?r5, [])"
    using assms(3,4) paren_classes by (intro first_plus) (simp_all add: cc_match_class)
  note s3 = first_seq [OF s3 s4]
  note s2 = first_seq [OF s2 s3]
  note s1 = first_seq [OF s1 s2]
  note s0 = first_seq [OF first_lits_req [of "[]" ?r1 "[]"] s1]
  from s0 have "first_match False row_start_re ([], ?line, []) = Some (rev num @ ?b2, ?r5, [])"
    by (simp only: row_start_re_def)
  then show ?thesis
    by (simp add: is_row_start_def re_match_first)
qed

lemma req_not_boundary:
  "\<not> is_boundary (CHR ''R'' # CHR ''E'' # CHR ''Q'' # CHR ''-'' # rest)"
  by (simp add: is_boundary_def re_match_def boundary_re_def rep_counts_def
      is_digit_def is_space_def code_def)

text \<open>
  Claim C4. Take a line \<^verbatim>\<open>REQ-<id> v<n> <title>\<close>, possibly followed by an annotation
  \<^verbatim>\<open>(word) number\<close>: the identifier is a non-empty run of word characters and hyphens, the
  version a non-empty run of digits, the title is not empty, has no whitespace at its ends
  and no newline in it, and the rest of the line is either empty, the title then not ending
  with an annotation itself, or one annotation with the whitespace before it. The strict
  pattern accepts the line, the identifier built from the match is \<^verbatim>\<open>REQ-<id> v<n>\<close> and the
  name is the title, without the annotation. The line is its own stripped form, it is a
  row-start line and not a boundary line, so that scanning it while capturing makes
  \<^verbatim>\<open>[REQ-<id> v<n>, title]\<close> the row in progress, the row that the final flush would emit.
\<close>

theorem c4_well_formed_row_start:
  assumes "ident \<noteq> []" and "list_all (\<lambda>c. is_word c \<or> c = CHR ''-'') ident"
    and "num \<noteq> []" and "list_all is_digit num"
    and "title \<noteq> []" and "strip title = title" and "newline \<notin> set title"
    and "annot = [] \<and> \<not> ends_with_annotation title \<or> is_annotation annot \<and> newline \<notin> set annot"
  shows "(\<exists>m. re_match False strict_re (''REQ-'' @ ident @ '' v'' @ num @ '' '' @ title @ annot) = Some m
            \<and> row_id m = ''REQ-'' @ ident @ '' v'' @ num \<and> row_name m = title)
       \<and> strip (''REQ-'' @ ident @ '' v'' @ num @ '' '' @ title @ annot) =
           ''REQ-'' @ ident @ '' v'' @ num @ '' '' @ title @ annot
       \<and> \<not> is_boundary (''REQ-'' @ ident @ '' v'' @ num @ '' '' @ title @ annot)
       \<and> is_row_start (''REQ-'' @ ident @ '' v'' @ num @ '' '' @ title @ annot)
       \<and> (capturing s \<longrightarrow>
            loop_body s (''REQ-'' @ ident @ '' v'' @ num @ '' '' @ title @ annot) =
              Next ((save_partial s)\<lparr>current_row := [''REQ-'' @ ident @ '' v'' @ num, title]\<rparr>)
          \<and> finalize ((save_partial s)\<lparr>current_row := [''REQ-'' @ ident @ '' v'' @ num, title]\<rparr>) =
              data (save_partial s) @ [[''REQ-'' @ ident @ '' v'' @ num, title]])"
proof -
  let ?line = "''REQ-'' @ ident @ '' v'' @ num @ '' '' @ title @ annot"
  let ?id = "''REQ-'' @ ident @ '' v'' @ num"
  let ?m = "[(3 :: nat, title), (2, num), (1, ''REQ-'' @ ident)]"
  from strict_first [OF assms] have matched: "re_match False strict_re ?line = Some ?m"
    by (auto simp: re_match_first)
  from assms(3,4) have "is_digit (last num)"
    by (auto simp: list_all_iff)
  then have "\<not> is_space (last ?id)"
    using assms(3) by (simp add: digit_not_space)
  then have "strip ?id = ?id"
    using paren_classes by (intro strip_unchanged) simp_all
  then have ident: "row_id ?m = ?id"
    by (simp add: row_id_def group_def)
  have name: "row_name ?m = title"
    using assms(6) by (simp add: row_name_def group_def)
  from assms(5,6) strip_ends [of title] have "\<not> is_space (last title)"
    by simp
  moreover have "\<not> is_space (last annot)" if "annot \<noteq> []"
    using that assms(8) is_annotation_last [of annot] by (auto simp: digit_not_space)
  ultimately have "\<not> is_space (last ?line)"
    using assms(5) by (cases "annot = []") simp_all
  then have stripped: "strip ?line = ?line"
    using paren_classes by (intro strip_unchanged) simp_all
  have nb: "\<not> is_boundary ?line"
    using req_not_boundary [of "ident @ '' v'' @ num @ '' '' @ title @ annot"] by simp
  have rs: "is_row_start ?line"
    using row_start_first [OF assms(1-4), of "title @ annot"] by simp
  have step: "loop_body s ?line = Next ((save_partial s)\<lparr>current_row := [?id, title]\<rparr>)"
    if "capturing s"
  proof -
    have "strip ?line \<noteq> []" unfolding stripped by simp
    from loop_body_row_start [OF that this] nb rs
    have "loop_body s ?line = Next (start_row (save_partial s) ?line)"
      by (simp only: stripped simp_thms)
    then show ?thesis
      by (simp only: start_row_def matched option.case ident name)
  qed
  have final: "finalize ((save_partial s)\<lparr>current_row := [?id, title]\<rparr>) =
      data (save_partial s) @ [[?id, title]]"
    by (simp add: finalize_def)
  from matched ident name stripped nb rs step final show ?thesis
    by blast
qed

theorem c4_well_formed_row_start_witness:
  "loop_body \<lparr>capturing = True, data = [], current_row = []\<rparr>
       ''REQ-100 v1 Engine shall report speed (v2) 14'' =
     Next \<lparr>capturing = True, data = [],
           current_row = [''REQ-100 v1'', ''Engine shall report speed'']\<rparr>
   \<and> loop_body \<lparr>capturing = True, data = [], current_row = []\<rparr>
       ''REQ-A-7 v12 Brake (test) system'' =
     Next \<lparr>capturing = True, data = [], current_row = [''REQ-A-7 v12'', ''Brake (test) system'']\<rparr>"
proof -
  let ?s = "\<lparr>capturing = True, data = [], current_row = []\<rparr>"
  have cap: "capturing ?s" by simp
  have same: "save_partial ?s = ?s" by (simp add: save_partial_def)
  have i1: "''100'' \<noteq> []" and n1: "''1'' \<noteq> []" and t1: "''Engine shall report speed'' \<noteq> []"
    by simp_all
  have i2: "list_all (\<lambda>c. is_word c \<or> c = CHR ''-'') ''100''" by code_simp
  have n2: "list_all is_digit ''1''" by code_simp
  have t2: "strip ''Engine shall report speed'' = ''Engine shall report speed''" by code_simp
  have t3: "newline \<notin> set ''Engine shall report speed''" by code_simp
  have a: "'' (v2) 14'' = [] \<and> \<not> ends_with_annotation ''Engine shall report speed''
      \<or> is_annotation '' (v2) 14'' \<and> newline \<notin> set '' (v2) 14''"
    by code_simp
  have j1: "''A-7'' \<noteq> []" and m1: "''12'' \<noteq> []" and u1: "''Brake (test) system'' \<noteq> []"
    by simp_all
  have j2: "list_all (\<lambda>c. is_word c \<or> c = CHR ''-'') ''A-7''" by code_simp
  have m2: "list_all is_digit ''12''" by code_simp
  have u2: "strip ''Brake (test) system'' = ''Brake (test) system''" by code_simp
  have u3: "newline \<notin> set ''Brake (test) system''" by code_simp
  have c: "([] :: string) = [] \<and> \<not> ends_with_annotation ''Brake (test) system''
      \<or> is_annotation [] \<and> newline \<notin> set []"
    by code_simp
  from c4_well_formed_row_start [OF i1 i2 n1 n2 t1 t2 t3 a, of ?s] cap
  have first: "loop_body ?s (''REQ-'' @ ''100'' @ '' v'' @ ''1'' @ '' '' @ ''Engine shall report speed'' @ '' (v2) 14'') =
      Next ((save_partial ?s)\<lparr>current_row := [''REQ-'' @ ''100'' @ '' v'' @ ''1'', ''Engine shall report speed'']\<rparr>)"
    by blast
  from c4_well_formed_row_start [OF j1 j2 m1 m2 u1 u2 u3 c, of ?s] cap
  have second: "loop_body ?s (''REQ-'' @ ''A-7'' @ '' v'' @ ''12'' @ '' '' @ ''Brake (test) system'' @ []) =
      Next ((save_partial ?s)\<lparr>current_row := [''REQ-'' @ ''A-7'' @ '' v'' @ ''12'', ''Brake (test) system'']\<rparr>)"
    by blast
  from first second show ?thesis
    by (simp add: same)
qed

end
